theory Spec2Isabelle
  imports Main "HOL-Library.Sublist"
begin

section \<open>JavaScript strings\<close>

text \<open>
  A JavaScript string is modelled as a \<^typ>\<open>string\<close>: the list of its code units. The
  model covers the code units below 256; of the characters that JavaScript counts as white
  space or as line terminators, those in this range are listed below.
\<close>

type_synonym jsstring = string

abbreviation NL :: char where "NL \<equiv> CHR 0x0A"
abbreviation CR :: char where "CR \<equiv> CHR 0x0D"

definition is_digit :: "char \<Rightarrow> bool" where
  \<comment> \<open>the regular-expression class \<open>\\d\<close>\<close>
  "is_digit c = (c \<in> set ''0123456789'')"

definition is_space :: "char \<Rightarrow> bool" where
  \<comment> \<open>the class \<open>\\s\<close>, which is also what \<open>String.prototype.trim\<close> strips\<close>
  "is_space c = (c \<in> {CHR 0x09, NL, CHR 0x0B, CHR 0x0C, CR, CHR '' '', CHR 0xA0})"

definition is_dot :: "char \<Rightarrow> bool" where
  \<comment> \<open>the class \<open>.\<close> (no \<open>s\<close> flag): anything but a line terminator\<close>
  "is_dot c = (c \<noteq> NL \<and> c \<noteq> CR)"

definition trim :: "jsstring \<Rightarrow> jsstring" where
  "trim s = rev (dropWhile is_space (rev (dropWhile is_space s)))"

definition digit_val :: "char \<Rightarrow> nat" where
  "digit_val c = of_char c - 48"

definition parseInt10 :: "jsstring \<Rightarrow> nat" where
  \<comment> \<open>\<open>parseInt(s, 10)\<close> on a string of decimal digits\<close>
  "parseInt10 s = foldl (\<lambda>n c. 10 * n + digit_val c) 0 s"

definition digit_char :: "nat \<Rightarrow> char" where
  \<comment> \<open>the character of one decimal digit; every call below has \<open>d < 10\<close>\<close>
  "digit_char d = ''0123456789'' ! d"

fun nat_digits :: "nat \<Rightarrow> nat \<Rightarrow> jsstring" where
  \<comment> \<open>decimal digits of \<open>n\<close>, most significant first; the first argument bounds the recursion\<close>
  "nat_digits 0 n = []"
| "nat_digits (Suc k) n =
     (if n < 10 then [digit_char n] else nat_digits k (n div 10) @ [digit_char (n mod 10)])"

definition String_of_nat :: "nat \<Rightarrow> jsstring" where
  \<comment> \<open>\<open>String(n)\<close> for a non-negative integer\<close>
  "String_of_nat n = nat_digits (Suc n) n"

definition padStart :: "jsstring \<Rightarrow> nat \<Rightarrow> char \<Rightarrow> jsstring" where
  \<comment> \<open>\<open>s.padStart(n, c)\<close> with a one-character filler\<close>
  "padStart s n c = replicate (n - length s) c @ s"

section \<open>AI Gateway: the timestamp parser of \<open>callGeminiApi\<close>\<close>

text \<open>
  The pattern is \<^verbatim>\<open>/\[(\d{1,2}):(\d{2})\](?: - (.*?))?(\n|$)/g\<close>. A match records the
  index where it starts, the whole matched text and the capture groups 1 to 3; group 3 is
  \<open>None\<close> when the optional description part did not take part in the match.
\<close>

record rx_match =
  m_index :: nat
  m_full :: jsstring
  m_minutes :: jsstring
  m_seconds :: jsstring
  m_desc :: "jsstring option"

text \<open>
  \<^verbatim>\<open>(.*?)(\n|$)\<close>: the lazy star takes one more character at a time and stops at the
  first place where a newline or the end of the input follows. The result is the text of
  group 3 and the text of group 4.
\<close>

fun lazy_dots :: "jsstring \<Rightarrow> jsstring \<Rightarrow> (jsstring \<times> jsstring) option" where
  "lazy_dots acc [] = Some (acc, [])"
| "lazy_dots acc (c # r) =
     (if c = NL then Some (acc, [NL])
      else if is_dot c then lazy_dots (acc @ [c]) r
      else None)"

text \<open>
  \<^verbatim>\<open>(?: - (.*?))?(\n|$)\<close> after the closing bracket: the optional group is greedy, so
  the branch with the description is tried first and the branch without it only when the
  first fails. The result is group 3 and the matched text.
\<close>

definition match_after_bracket :: "jsstring \<Rightarrow> (jsstring option \<times> jsstring) option" where
  "match_after_bracket r =
     (case (if take 3 r = '' - '' then lazy_dots [] (drop 3 r) else None) of
        Some (d, e) \<Rightarrow> Some (Some d, '' - '' @ d @ e)
      | None \<Rightarrow>
          (case r of
             [] \<Rightarrow> Some (None, [])
           | c # _ \<Rightarrow> if c = NL then Some (None, [NL]) else None))"

text \<open>\<^verbatim>\<open>:(\d{2})\]\<close> and the rest of the pattern, after the minutes \<open>md\<close>.\<close>

definition match_after_minutes :: "nat \<Rightarrow> jsstring \<Rightarrow> jsstring \<Rightarrow> rx_match option" where
  "match_after_minutes i md r =
     (case r of
        c # s1 # s2 # b # r' \<Rightarrow>
          if c = CHR '':'' \<and> is_digit s1 \<and> is_digit s2 \<and> b = CHR '']'' then
            (case match_after_bracket r' of
               Some (d, t) \<Rightarrow>
                 Some \<lparr>m_index = i, m_full = CHR ''['' # md @ CHR '':'' # s1 # s2 # CHR '']'' # t,
                       m_minutes = md, m_seconds = [s1, s2], m_desc = d\<rparr>
             | None \<Rightarrow> None)
          else None
      | _ \<Rightarrow> None)"

text \<open>
  A match attempt at one position. \<^verbatim>\<open>\d{1,2}\<close> is greedy: two digits are tried first,
  one digit when the attempt with two fails.
\<close>

definition match_here :: "nat \<Rightarrow> jsstring \<Rightarrow> rx_match option" where
  "match_here i s =
     (case s of
        b # d1 # r1 \<Rightarrow>
          if b = CHR ''['' \<and> is_digit d1 then
            (case (case r1 of
                     d2 # r2 \<Rightarrow> if is_digit d2 then match_after_minutes i [d1, d2] r2 else None
                   | [] \<Rightarrow> None) of
               Some m \<Rightarrow> Some m
             | None \<Rightarrow> match_after_minutes i [d1] r1)
          else None
      | _ \<Rightarrow> None)"

text \<open>
  The loop \<^verbatim>\<open>while ((match = timestampRegex.exec(fullAiAnswer)) !== null)\<close>. With the
  \<open>g\<close> flag each \<open>exec\<close> searches from \<open>lastIndex\<close> for the leftmost match and sets
  \<open>lastIndex\<close> to the end of the match. \<open>exec_all i s\<close> lists the matches of the loop,
  \<open>s\<close> being the input from index \<open>i\<close> on. A match at \<open>c # r\<close> has at least one character,
  so the input after it is \<open>r\<close> without the remaining \<open>length (m_full m) - 1\<close>.
\<close>

function exec_all :: "nat \<Rightarrow> jsstring \<Rightarrow> rx_match list" where
  "exec_all i [] = []"
| "exec_all i (c # r) =
     (case match_here i (c # r) of
        Some m \<Rightarrow> m # exec_all (i + length (m_full m)) (drop (length (m_full m) - 1) r)
      | None \<Rightarrow> exec_all (i + 1) r)"
  by pat_completeness auto
termination
  by (relation "measure (\<lambda>(i, s). length s)") auto

record citation =
  time :: nat
  timestamp :: jsstring
  description :: jsstring

text \<open>The object pushed on \<open>parsedTimestamps\<close> for one match (its field \<open>text\<close> is \<open>description\<close> here).\<close>

definition citation_of :: "rx_match \<Rightarrow> citation" where
  "citation_of m =
     (let minutes = parseInt10 (m_minutes m);
          seconds = parseInt10 (m_seconds m)
      in \<lparr>time = minutes * 60 + seconds,
          timestamp = padStart (String_of_nat minutes) 2 (CHR ''0'') @ '':''
                      @ padStart (String_of_nat seconds) 2 (CHR ''0''),
          description = (case m_desc m of
                           None \<Rightarrow> []
                         | Some d \<Rightarrow> if d = [] then [] else trim d)\<rparr>)"

text \<open>\<open>s.replace(pat, '')\<close> with a string pattern: the first occurrence is removed.\<close>

fun remove_first :: "jsstring \<Rightarrow> jsstring \<Rightarrow> jsstring" where
  "remove_first pat [] = []"
| "remove_first pat (c # r) =
     (if prefix pat (c # r) then drop (length pat) (c # r) else c # remove_first pat r)"

text \<open>
  \<^verbatim>\<open>s.replace(/\n\s*\n/g, '\n\n')\<close>. At a newline the greedy \<open>\\s*\<close> takes the whole run
  of white space that follows and gives characters back until a newline ends the match:
  the match ends at the last newline of that run. \<open>last_newline w\<close> is the number of
  characters of \<open>w\<close> up to and including its last newline.
\<close>

definition last_newline :: "jsstring \<Rightarrow> nat option" where
  "last_newline w =
     (if NL \<in> set w then Some (length w - length (takeWhile (\<lambda>c. c \<noteq> NL) (rev w))) else None)"

function collapse_blank_lines :: "jsstring \<Rightarrow> jsstring" where
  "collapse_blank_lines [] = []"
| "collapse_blank_lines (c # r) =
     (if c = NL then
        (case last_newline (takeWhile is_space r) of
           Some k \<Rightarrow> [NL, NL] @ collapse_blank_lines (drop k r)
         | None \<Rightarrow> c # collapse_blank_lines r)
      else c # collapse_blank_lines r)"
  by pat_completeness auto
termination
  by (relation "measure length") auto

record parsed_answer =
  answer :: jsstring
  timestamps :: "citation list"

text \<open>
  The body of the loop removes the matched text from \<open>cleanAnswer\<close> and trims the result,
  once per match, in the order of the matches.
\<close>

definition strip_match :: "jsstring \<Rightarrow> rx_match \<Rightarrow> jsstring" where
  "strip_match cleanAnswer m = trim (remove_first (m_full m) cleanAnswer)"

definition parse_answer :: "jsstring \<Rightarrow> parsed_answer" where
  "parse_answer fullAiAnswer =
     (let ms = exec_all 0 fullAiAnswer
      in \<lparr>answer = trim (collapse_blank_lines (foldl strip_match fullAiAnswer ms)),
          timestamps = map citation_of ms\<rparr>)"

section \<open>The timestamp lines of the specification\<close>

text \<open>
  The specification describes the pattern in words: a timestamp line is \<open>[MM:SS]\<close>,
  optionally followed by \<^verbatim>\<open> - \<close> and a free-text description, terminated by a newline or
  by the end of the text; the minutes are one or two digits and the seconds exactly two.
  The definitions below follow these words and do not use the functions of the matcher.

  \<open>spec_marker md sd\<close> is the text \<open>[md:sd]\<close>.
\<close>

definition spec_marker :: "jsstring \<Rightarrow> jsstring \<Rightarrow> jsstring" where
  "spec_marker md sd = CHR ''['' # md @ CHR '':'' # sd @ '']''"

text \<open>
  What follows the marker: \<open>r\<close> is the text after the closing bracket, \<open>desc\<close> the description
  (\<open>None\<close> when there is no \<^verbatim>\<open> - \<close> part) and \<open>t\<close> the part of \<open>r\<close> that belongs to the line.
  Without a description the line ends right after the bracket, at the end of the text or
  with a newline. With a description, the description is the whole text between \<^verbatim>\<open> - \<close> and
  the end of the line: it holds no line terminator, and the end of the text or a newline
  follows it.
\<close>

definition spec_line_rest :: "jsstring \<Rightarrow> jsstring option \<Rightarrow> jsstring \<Rightarrow> bool" where
  "spec_line_rest r desc t =
     (case desc of
        None \<Rightarrow> (t = [] \<and> r = []) \<or> (t = [NL] \<and> prefix t r)
      | Some d \<Rightarrow>
          (\<forall>c\<in>set d. c \<noteq> NL \<and> c \<noteq> CR) \<and>
          ((t = '' - '' @ d \<and> r = t) \<or> (t = '' - '' @ d @ [NL] \<and> prefix t r)))"

text \<open>
  \<open>spec_timestamp_line s md sd desc full\<close>: the text \<open>s\<close> starts with the timestamp line
  \<open>full\<close>, whose minutes are \<open>md\<close>, whose seconds are \<open>sd\<close> and whose description is \<open>desc\<close>.
  No range is asked of the digits.
\<close>

definition spec_timestamp_line ::
  "jsstring \<Rightarrow> jsstring \<Rightarrow> jsstring \<Rightarrow> jsstring option \<Rightarrow> jsstring \<Rightarrow> bool" where
  "spec_timestamp_line s md sd desc full =
     ((length md = 1 \<or> length md = 2) \<and> length sd = 2 \<and> (\<forall>c\<in>set (md @ sd). is_digit c) \<and>
      prefix (spec_marker md sd) s \<and> prefix (spec_marker md sd) full \<and>
      spec_line_rest (drop (length (spec_marker md sd)) s) desc
                     (drop (length (spec_marker md sd)) full))"

text \<open>
  The citation that the specification asks for such a line: the time is the minutes times
  60 plus the seconds, the label is the minutes padded with \<open>0\<close> to two characters, a colon
  and the seconds, and the description is trimmed, or empty when there is none.
\<close>

definition spec_citation :: "jsstring \<Rightarrow> jsstring \<Rightarrow> jsstring option \<Rightarrow> citation" where
  "spec_citation md sd desc =
     \<lparr>time = parseInt10 md * 60 + parseInt10 sd,
      timestamp = padStart md 2 (CHR ''0'') @ '':'' @ sd,
      description = (case desc of None \<Rightarrow> [] | Some d \<Rightarrow> trim d)\<rparr>"

section \<open>Player Bridge: the script injected into the page\<close>

text \<open>
  The injected script reads the page's global \<open>window.ytplayer\<close> every time it tests the
  readiness. The model passes to every readiness test the player that the test sees: the
  value is \<open>undefined\<close>, \<open>null\<close>, some value whose \<open>typeof\<close> is not \<open>'object'\<close>, or an object,
  and it may differ from one test to the next. Of an object the
  script looks at the type of three properties, at \<open>loaded\<close>, at what \<open>getPlayerState()\<close>
  returns or throws, and it calls \<open>seekTo\<close> and \<open>playVideo\<close>, which may throw.
\<close>

datatype js_error = TypeError | NativeError

record player_obj =
  seekTo_is_function :: bool
  playVideo_is_function :: bool
  getPlayerState_is_function :: bool
  loaded_is_true :: bool
  getPlayerState_result :: "js_error + int"
  seekTo_throws :: bool
  playVideo_throws :: bool

datatype ytplayer = Undefined | Null | NotAnObject | Object player_obj

type_synonym seconds = int

datatype native_call = SeekTo seconds | PlayVideo

text \<open>
  \<open>isYouTubePlayerAPIReady\<close>. For \<open>undefined\<close> the conjunction of line 62 is false at its
  first test, and the branch that collects the reasons reads \<open>window.ytplayer.seekTo\<close> in
  line 71, which throws a \<open>TypeError\<close>. For \<open>null\<close> the first test holds (\<open>typeof null\<close> is
  \<open>'object'\<close>) and line 63 reads \<open>window.ytplayer.seekTo\<close>, which throws as well. For any
  other value that is not an object the function returns \<open>false\<close>.
\<close>

fun isYouTubePlayerAPIReady :: "ytplayer \<Rightarrow> js_error + bool" where
  "isYouTubePlayerAPIReady Undefined = Inl TypeError"
| "isYouTubePlayerAPIReady Null = Inl TypeError"
| "isYouTubePlayerAPIReady NotAnObject = Inr False"
| "isYouTubePlayerAPIReady (Object ob) =
     (let isReady = (seekTo_is_function ob \<and> playVideo_is_function ob \<and>
                     getPlayerState_is_function ob \<and> loaded_is_true ob)
      in if \<not> isReady then Inr isReady
         else (case getPlayerState_result ob of
                 Inl e \<Rightarrow> Inl e
               | Inr playerState \<Rightarrow>
                   if playerState = - 1 \<or> playerState = 5 then Inr False else Inr isReady))"

text \<open>
  \<open>processSeekCommand\<close> returns what the function returns or throws, and the calls it made
  on the player. The readiness test is outside the \<open>try\<close> block; \<open>seekTo\<close> and \<open>playVideo\<close>
  are inside it.
\<close>

definition processSeekCommand :: "ytplayer \<Rightarrow> seconds \<Rightarrow> (js_error + bool) \<times> native_call list" where
  "processSeekCommand p secs =
     (case isYouTubePlayerAPIReady p of
        Inl e \<Rightarrow> (Inl e, [])
      | Inr ready \<Rightarrow>
          if ready then
            (case p of
               Object ob \<Rightarrow>
                 if seekTo_throws ob then (Inr False, [SeekTo secs])
                 else if playVideo_throws ob then (Inr False, [SeekTo secs, PlayVideo])
                 else (Inr True, [SeekTo secs, PlayVideo])
             | _ \<Rightarrow> (Inr False, []))
          else (Inr False, []))"

text \<open>
  The state of the script: its two variables, the pending \<open>setTimeout\<close> (its delay), whether
  the listener for \<open>qtube_seek_video\<close> is registered, and the calls made on the player so
  far, oldest first.
\<close>

record bridge =
  playerReady :: bool
  commandQueue :: "seconds list"
  timer :: "nat option"
  listening :: bool
  native_calls :: "native_call list"

text \<open>
  The loop \<^verbatim>\<open>while (commandQueue.length > 0)\<close>. Every queued command runs
  \<open>processSeekCommand\<close>, which tests the readiness again and so reads \<open>window.ytplayer\<close> and
  calls \<open>getPlayerState()\<close> again, after the calls of the commands before it. The loop
  therefore takes, besides the player \<open>p\<close> last seen, the list \<open>ps\<close> of the players seen by
  the readiness tests still to come, one for each command; when the list is used up the
  player stays as it was last seen. A handler returns the exception that left it, if any,
  and the state it leaves behind.
\<close>

fun next_player :: "ytplayer \<Rightarrow> ytplayer list \<Rightarrow> ytplayer" where
  "next_player p [] = p"
| "next_player p (q # qs) = q"

function drain_queue :: "ytplayer \<Rightarrow> ytplayer list \<Rightarrow> bridge \<Rightarrow> js_error option \<times> bridge" where
  "drain_queue p ps s =
     (case commandQueue s of
        [] \<Rightarrow> (None, s)
      | secs # rest \<Rightarrow>
          (case processSeekCommand (next_player p ps) secs of
             (Inl e, cs) \<Rightarrow>
               (Some e, s\<lparr>commandQueue := rest, native_calls := native_calls s @ cs\<rparr>)
           | (Inr _, cs) \<Rightarrow>
               drain_queue (next_player p ps) (tl ps)
                 (s\<lparr>commandQueue := rest, native_calls := native_calls s @ cs\<rparr>)))"
  by pat_completeness auto
termination
  by (relation "measure (\<lambda>(p, ps, s). length (commandQueue s))") auto

declare drain_queue.simps [simp del]

text \<open>
  \<open>ensurePlayerAndProcessQueue\<close>: \<open>p\<close> is the player seen by the test of line 115, \<open>ps\<close> the
  players seen by the tests of the queued commands.
\<close>

definition ensurePlayerAndProcessQueue ::
  "ytplayer \<Rightarrow> ytplayer list \<Rightarrow> bridge \<Rightarrow> js_error option \<times> bridge" where
  "ensurePlayerAndProcessQueue p ps s =
     (if \<not> playerReady s then
        (case isYouTubePlayerAPIReady p of
           Inl e \<Rightarrow> (Some e, s)
         | Inr ready \<Rightarrow>
             if ready then
               (case drain_queue p ps (s\<lparr>playerReady := True\<rparr>) of
                  (Some e, s') \<Rightarrow> (Some e, s')
                | (None, s') \<Rightarrow> (None, s'\<lparr>timer := Some 200\<rparr>))
             else (None, s\<lparr>timer := Some 200\<rparr>))
      else (None, s\<lparr>timer := Some 200\<rparr>))"

text \<open>
  The body of the script: the first call of \<open>ensurePlayerAndProcessQueue\<close>, then
  \<open>addEventListener\<close>. An exception in the first call ends the script before the listener
  is registered. The queue is empty at the first call, so no command tests the player.
\<close>

definition start_script :: "ytplayer \<Rightarrow> js_error option \<times> bridge" where
  "start_script p =
     (case ensurePlayerAndProcessQueue p []
             \<lparr>playerReady = False, commandQueue = [], timer = None, listening = False,
              native_calls = []\<rparr> of
        (Some e, s) \<Rightarrow> (Some e, s)
      | (None, s) \<Rightarrow> (None, s\<lparr>listening := True\<rparr>))"

text \<open>The pending timer fires: it is used up, and the function runs.\<close>

definition timer_fires :: "ytplayer \<Rightarrow> ytplayer list \<Rightarrow> bridge \<Rightarrow> js_error option \<times> bridge" where
  "timer_fires p ps s =
     (case timer s of
        None \<Rightarrow> (None, s)
      | Some d \<Rightarrow> ensurePlayerAndProcessQueue p ps (s\<lparr>timer := None\<rparr>))"

text \<open>The listener for \<open>qtube_seek_video\<close>, with \<open>event.detail.time\<close> as \<open>secs\<close>.\<close>

definition on_seek_event :: "ytplayer \<Rightarrow> seconds \<Rightarrow> bridge \<Rightarrow> js_error option \<times> bridge" where
  "on_seek_event p secs s =
     (if \<not> listening s then (None, s)
      else if playerReady s then
        (case processSeekCommand p secs of
           (Inl e, cs) \<Rightarrow> (Some e, s\<lparr>native_calls := native_calls s @ cs\<rparr>)
         | (Inr _, cs) \<Rightarrow> (None, s\<lparr>native_calls := native_calls s @ cs\<rparr>))
      else (None, s\<lparr>commandQueue := commandQueue s @ [secs]\<rparr>))"

text \<open>
  What happens in the page after the script has started: the timer fires or a seek event
  is dispatched. A seek event comes with the player seen by its one readiness test; a
  timer event comes with the player seen by the test of the gate and with the players seen
  by the tests of the commands it drains. An exception that leaves a handler ends that
  handler; the state it has reached stays.
\<close>

datatype page_event = TimerFires ytplayer "ytplayer list" | SeekEvent ytplayer seconds

fun bridge_step :: "page_event \<Rightarrow> bridge \<Rightarrow> bridge" where
  "bridge_step (TimerFires p ps) s = snd (timer_fires p ps s)"
| "bridge_step (SeekEvent p secs) s = snd (on_seek_event p secs s)"

definition bridge_run :: "page_event list \<Rightarrow> bridge \<Rightarrow> bridge" where
  "bridge_run evs s = foldl (\<lambda>s ev. bridge_step ev s) s evs"





text \<open>
  Three sample players: one that has everything but reports the state \<open>-1\<close> (unstarted),
  one that is playing (state \<open>1\<close>) and whose calls do not throw, and one that has everything
  but reports the state \<open>5\<close> (cued).
\<close>

definition stalled_player :: ytplayer where
  "stalled_player = Object \<lparr>seekTo_is_function = True, playVideo_is_function = True,
     getPlayerState_is_function = True, loaded_is_true = True, getPlayerState_result = Inr (- 1),
     seekTo_throws = False, playVideo_throws = False\<rparr>"

definition playing_player :: player_obj where
  "playing_player = \<lparr>seekTo_is_function = True, playVideo_is_function = True,
     getPlayerState_is_function = True, loaded_is_true = True, getPlayerState_result = Inr 1,
     seekTo_throws = False, playVideo_throws = False\<rparr>"


section \<open>Session Coordinator: delivery with retry\<close>

text \<open>The messages of the extension, by their \<open>type\<close> field.\<close>

record video_data =
  videoTitle :: jsstring
  videoDescription :: jsstring
  videoTranscript :: jsstring

datatype message =
    Ping
  | ContentScriptReady
  | ShowOverlay jsstring
  | HideOverlay
  | ProcessManualTranscript jsstring video_data

text \<open>
  One call of \<open>chrome.tabs.sendMessage\<close> ends in one of two ways: the promise resolves with
  a response, and \<open>chrome.runtime.lastError\<close> is then unset (\<open>None\<close>) or set, with its
  message (the empty string standing for a missing message); or the \<open>await\<close> throws an
  error with a message.
\<close>

datatype 'r send_outcome = Resolved 'r "jsstring option" | Rejected jsstring

datatype delivery_action = SendMessage nat message | Wait nat

text \<open>\<open>s.includes(pat)\<close>.\<close>

fun js_includes :: "jsstring \<Rightarrow> jsstring \<Rightarrow> bool" where
  "js_includes [] pat = (pat = [])"
| "js_includes (c # r) pat = (prefix pat (c # r) \<or> js_includes r pat)"

definition failure_text :: "nat \<Rightarrow> jsstring \<Rightarrow> jsstring" where
  \<comment> \<open>the message of the errors thrown in lines 80 and 89\<close>
  "failure_text retries m =
     ''Failed to send message after '' @ String_of_nat (retries + 1) @ '' attempts: '' @ m"

text \<open>
  One round of the loop of \<open>sendMessageWithRetry\<close>. The \<open>try\<close> block returns the response,
  goes on to the next round after the delay, or throws: what \<open>sendMessage\<close> threw, or the
  error of line 80 when \<open>lastError\<close> is set and no round is left. Every exception of the
  block, also the one of line 80, reaches the \<open>catch\<close> clause, which goes on to the next
  round after the delay or throws the error of line 89.
\<close>

datatype 'r try_result = Returns 'r | Continues | Throws jsstring

definition try_block :: "'r send_outcome \<Rightarrow> nat \<Rightarrow> nat \<Rightarrow> 'r try_result" where
  "try_block outcome retries i =
     (case outcome of
        Rejected m \<Rightarrow> Throws m
      | Resolved response None \<Rightarrow> Returns response
      | Resolved response (Some m) \<Rightarrow>
          (let errorMsg = (if m = [] then ''Unknown connection error'' else m)
           in if i < retries then Continues else Throws (failure_text retries errorMsg)))"

datatype 'r round_result = Return 'r | Retry | Fail jsstring

definition round :: "'r send_outcome \<Rightarrow> nat \<Rightarrow> nat \<Rightarrow> 'r round_result" where
  "round outcome retries i =
     (case try_block outcome retries i of
        Returns response \<Rightarrow> Return response
      | Continues \<Rightarrow> Retry
      | Throws m \<Rightarrow>
          if i < retries \<and> js_includes m ''Could not establish connection'' then Retry
          else Fail (failure_text retries m))"

text \<open>
  The loop \<^verbatim>\<open>for (let i = 0; i <= retries; i++)\<close>, from round \<open>i\<close> on. \<open>env i\<close> is the outcome
  of the call of \<open>sendMessage\<close> in round \<open>i\<close>. The result is what the function returns
  (\<open>Inr\<close>) or the message of the error it throws (\<open>Inl\<close>), with the calls and waits in their
  order.
\<close>

function sendLoop ::
  "(nat \<Rightarrow> 'r send_outcome) \<Rightarrow> nat \<Rightarrow> message \<Rightarrow> nat \<Rightarrow> nat \<Rightarrow> nat
     \<Rightarrow> (jsstring + 'r) \<times> delivery_action list" where
  "sendLoop env tabId msg retries delay i =
     (if i \<le> retries then
        (case round (env i) retries i of
           Return response \<Rightarrow> (Inr response, [SendMessage tabId msg])
         | Fail m \<Rightarrow> (Inl m, [SendMessage tabId msg])
         | Retry \<Rightarrow>
             (case sendLoop env tabId msg retries delay (i + 1) of
                (res, acts) \<Rightarrow> (res, [SendMessage tabId msg, Wait delay] @ acts)))
      else (Inl ''sendMessageWithRetry failed without explicit error after all retries.'', []))"
  by pat_completeness auto
termination
  by (relation "measure (\<lambda>(env, tabId, msg, retries, delay, i). Suc retries - i)") auto

declare sendLoop.simps [simp del]

definition sendMessageWithRetry ::
  "(nat \<Rightarrow> 'r send_outcome) \<Rightarrow> nat \<Rightarrow> message \<Rightarrow> nat \<Rightarrow> nat
     \<Rightarrow> (jsstring + 'r) \<times> delivery_action list" where
  "sendMessageWithRetry env tabId msg retries delay = sendLoop env tabId msg retries delay 0"

text \<open>
  A connection-class failure is one whose message says that no connection could be
  established, on either of the two ways a call can fail.
\<close>

definition is_connection_error :: "jsstring \<Rightarrow> bool" where
  "is_connection_error m = js_includes m ''Could not establish connection''"

fun connection_failure :: "'r send_outcome \<Rightarrow> bool" where
  "connection_failure (Rejected m) = is_connection_error m"
| "connection_failure (Resolved response (Some m)) = is_connection_error m"
| "connection_failure (Resolved response None) = False"

text \<open>An environment given by the outcomes of the first calls, and one outcome for all later calls.\<close>

definition outcomes :: "'r send_outcome list \<Rightarrow> 'r send_outcome \<Rightarrow> nat \<Rightarrow> 'r send_outcome" where
  "outcomes xs d i = (if i < length xs then xs ! i else d)"

text \<open>The message carried by a failed call, on either way of failing.\<close>

definition last_error_message :: "'r send_outcome \<Rightarrow> jsstring" where
  "last_error_message outcome =
     (case outcome of Rejected e \<Rightarrow> e | Resolved response None \<Rightarrow> [] | Resolved response (Some e) \<Rightarrow> e)"

text \<open>The message Chrome gives when no listener exists in the tab.\<close>

definition no_receiver :: jsstring where
  "no_receiver = ''Could not establish connection. Receiving end does not exist.''"

section \<open>Session Coordinator: submitting a question\<close>

definition defaultText :: jsstring where
  "defaultText = ''Ask a question about this video (under 200 characters)...''"

text \<open>
  What \<open>askQuestion\<close> does, in order: calls of \<open>displayMessage\<close> (which shows the text and
  hides it again after five seconds), changes of the button, the query for the active tab,
  the call of \<open>ensureContentScriptLoaded\<close>, the call of \<open>sendMessageWithRetry\<close>, the closing
  of the popup, and the timer of the \<open>finally\<close> block that hides the message.
\<close>

datatype popup_effect =
    DisplayMessage jsstring jsstring
  | ButtonDisabled bool
  | ButtonText jsstring
  | QueryActiveTab
  | EnsureContentScriptLoaded nat
  | SendWithRetry nat message nat nat
  | WindowClose
  | HideMessageAfter nat

text \<open>
  What the awaited calls give: the active tab (its id and URL, \<open>None\<close> when the query
  returns no tab), whether \<open>ensureContentScriptLoaded\<close> and \<open>sendMessageWithRetry\<close> throw
  (\<open>Some\<close> the message of the error), and \<open>document.hidden\<close>.
\<close>

record ask_env =
  active_tab :: "(nat \<times> jsstring) option"
  ensure_error :: "jsstring option"
  send_error :: "jsstring option"
  document_hidden :: bool

definition undefined_url_message :: jsstring where
  \<comment> \<open>the message of the \<open>TypeError\<close> of \<open>currentTab.url\<close> when \<open>tabs[0]\<close> is \<open>undefined\<close>\<close>
  "undefined_url_message = ''Cannot read properties of undefined (reading '' @ [CHR 0x27] @ ''url'' @ [CHR 0x27] @ '')''"

definition show_error :: "jsstring \<Rightarrow> popup_effect" where
  \<comment> \<open>the \<open>catch\<close> clause of \<open>askQuestion\<close>\<close>
  "show_error m =
     DisplayMessage
       (''Error: '' @ (if m = [] then ''Failed to open AI chat overlay.'' else m)
        @ '' Please ensure the YouTube page is fully loaded and try again.'')
       ''error''"

definition ask_try :: "jsstring \<Rightarrow> ask_env \<Rightarrow> popup_effect list" where
  \<comment> \<open>the \<open>try\<close> block with its \<open>catch\<close> clause\<close>
  "ask_try question env =
     QueryActiveTab #
     (case active_tab env of
        None \<Rightarrow> [show_error undefined_url_message]
      | Some (tabId, url) \<Rightarrow>
          if \<not> js_includes url ''youtube.com/watch'' then
            [DisplayMessage ''Please navigate to a YouTube video page first.'' ''error'']
          else
            EnsureContentScriptLoaded tabId #
            (case ensure_error env of
               Some m \<Rightarrow> [show_error m]
             | None \<Rightarrow>
                 [DisplayMessage ''AI chat ready. Displaying overlay...'' ''info'',
                  SendWithRetry tabId (ShowOverlay question) 5 750] @
                 (case send_error env of
                    Some m \<Rightarrow> [show_error m]
                  | None \<Rightarrow> [WindowClose])))"

definition ask_finally :: "ask_env \<Rightarrow> popup_effect list" where
  "ask_finally env =
     [ButtonDisabled False, ButtonText ''Ask AI''] @
     (if \<not> document_hidden env then [HideMessageAfter 5000] else [])"

definition askQuestion :: "jsstring \<Rightarrow> ask_env \<Rightarrow> popup_effect list" where
  "askQuestion input env =
     (let question = trim input
      in if question = [] \<or> question = defaultText then
           [DisplayMessage ''Please enter a question first!'' ''error'']
         else if length question > 200 then
           [DisplayMessage ''Please keep your question under 200 characters.'' ''error'']
         else
           [ButtonDisabled True, ButtonText ''Opening AI Chat...'',
            DisplayMessage ''Ensuring AI chat is ready...'' ''info'']
           @ ask_try question env @ ask_finally env)"

text \<open>The effects that reach a tab.\<close>

fun reaches_tab :: "popup_effect \<Rightarrow> bool" where
  "reaches_tab (EnsureContentScriptLoaded tabId) = True"
| "reaches_tab (SendWithRetry tabId msg retries delay) = True"
| "reaches_tab _ = False"

section \<open>AI Gateway: \<open>callGeminiApi\<close>\<close>

text \<open>
  The answer of the endpoint to the one request: a status that is not a success, with the
  body, or a success, with the text of the first part of the first candidate when the
  body has that shape.
\<close>

datatype http_response = HttpFailure nat jsstring | HttpOk "jsstring option"

definition callGeminiApi :: "http_response \<Rightarrow> jsstring + parsed_answer" where
  "callGeminiApi response =
     (case response of
        HttpFailure status errorText \<Rightarrow>
          Inl (''Gemini API request failed: '' @ String_of_nat status @ '' '' @ errorText)
      | HttpOk None \<Rightarrow> Inl ''AI response structure invalid or empty.''
      | HttpOk (Some fullAiAnswer) \<Rightarrow> Inr (parse_answer fullAiAnswer))"

section \<open>Session Coordinator: the listener for \<open>processManualTranscript\<close>\<close>

text \<open>The values passed to \<open>sendResponse\<close> and returned by the listener.\<close>

datatype js_value =
    JUndefined
  | JBool bool
  | JNum nat
  | JStr jsstring
  | JArr "js_value list"
  | JObj "(jsstring \<times> js_value) list"
  | JPromise js_value

definition js_of_citation :: "citation \<Rightarrow> js_value" where
  "js_of_citation c =
     JObj [(''time'', JNum (time c)), (''timestamp'', JStr (timestamp c)),
           (''text'', JStr (description c))]"

definition js_of_parsed_answer :: "parsed_answer \<Rightarrow> js_value" where
  \<comment> \<open>the object \<open>{ answer: cleanAnswer, timestamps: parsedTimestamps }\<close> that \<open>callGeminiApi\<close> returns\<close>
  "js_of_parsed_answer r =
     JObj [(''answer'', JStr (answer r)), (''timestamps'', JArr (map js_of_citation (timestamps r)))]"

definition popup_prompt :: "video_data \<Rightarrow> jsstring \<Rightarrow> jsstring" where
  "popup_prompt videoData question =
     ''You are an AI assistant designed to answer questions about YouTube videos.'' @ [NL] @
     ''Video Title: '' @ [CHR 0x22] @ videoTitle videoData @ [CHR 0x22] @ [NL] @
     ''Video Description: '' @ [CHR 0x22] @ videoDescription videoData @ [CHR 0x22] @ [NL] @
     ''Video Transcript:'' @ [NL, NL] @ videoTranscript videoData @ [NL, NL] @ [NL] @
     ''Based *only* on the provided video transcript and description, answer the following question. If the information is not present in the transcript or description, state that you cannot answer based on the provided text.'' @ [NL] @
     ''User Question: '' @ [CHR 0x22] @ question @ [CHR 0x22] @ [NL] @
     ''AI Answer:''"

text \<open>
  The listener is an \<open>async\<close> function: what it returns to Chrome is a promise, of the
  value of its \<open>return\<close> statement. The record holds that value, the prompt sent to the
  gateway, if any, and the arguments of the calls of \<open>sendResponse\<close>. \<open>sender\<close> is
  \<open>sender.tab.id\<close> and \<open>active\<close> the id of the active tab, \<open>None\<close> when there is no such tab;
  \<open>response\<close> is what the endpoint answers when it is asked.
\<close>

record listener_run =
  returned :: js_value
  prompt_sent :: "jsstring option"
  responses :: "js_value list"

definition processManualTranscript_listener ::
  "message \<Rightarrow> nat option \<Rightarrow> nat option \<Rightarrow> http_response \<Rightarrow> listener_run" where
  "processManualTranscript_listener msg sender active response =
     (case msg of
        ProcessManualTranscript question videoData \<Rightarrow>
          if active = None \<or> sender = None \<or> sender \<noteq> active then
            \<lparr>returned = JPromise JUndefined, prompt_sent = None,
             responses = [JObj [(''success'', JBool False),
                                (''error'', JStr ''Invalid tab context for AI processing.'')]]\<rparr>
          else
            (case callGeminiApi response of
               Inr aiAnswer \<Rightarrow>
                 \<lparr>returned = JPromise (JBool True),
                  prompt_sent = Some (popup_prompt videoData question),
                  responses = [JObj [(''success'', JBool True),
                                     (''answer'', js_of_parsed_answer aiAnswer)]]\<rparr>
             | Inl m \<Rightarrow>
                 \<lparr>returned = JPromise (JBool True),
                  prompt_sent = Some (popup_prompt videoData question),
                  responses = [JObj [(''success'', JBool False),
                                     (''error'', JStr (if m = [] then ''Failed to get AI response.'' else m))]]\<rparr>)
      | _ \<Rightarrow> \<lparr>returned = JPromise JUndefined, prompt_sent = None, responses = []\<rparr>)"

text \<open>
  The reply the content script's own path builds from the result of \<open>callGeminiApi\<close>
  (\<open>processManualTranscript\<close> in \<open>QTube_content.js\<close>), which is what \<open>updateOverlay\<close> reads.
\<close>

definition overlay_success :: "parsed_answer \<Rightarrow> js_value" where
  "overlay_success aiResponseData =
     JObj [(''success'', JBool True), (''answer'', JStr (answer aiResponseData)),
           (''timestamps'', JArr (map js_of_citation (timestamps aiResponseData)))]"

definition field :: "jsstring \<Rightarrow> js_value \<Rightarrow> js_value" where
  \<comment> \<open>property access \<open>v.name\<close> on an object; \<open>undefined\<close> for a missing property\<close>
  "field name v =
     (case v of
        JObj fs \<Rightarrow> (case map_of fs name of Some x \<Rightarrow> x | None \<Rightarrow> JUndefined)
      | _ \<Rightarrow> JUndefined)"

text \<open>Sample inputs: a popup opened on a watch page, a request and an answer of the endpoint.\<close>

definition watch_page_env :: ask_env where
  "watch_page_env = \<lparr>active_tab = Some (7, ''https://www.youtube.com/watch?v=abc''),
     ensure_error = None, send_error = None, document_hidden = False\<rparr>"

definition sample_video :: video_data where
  "sample_video = \<lparr>videoTitle = ''Talk'', videoDescription = ''none'', videoTranscript = ''0:05 hello''\<rparr>"

definition sample_answer :: jsstring where
  "sample_answer = ''At the start.'' @ [NL] @ ''[00:05] - start''"

section \<open>Session Coordinator: the readiness handshake\<close>

text \<open>
  \<open>ensureContentScriptLoaded\<close> creates a promise whose executor is an \<open>async\<close> function: it
  runs up to its first \<open>await\<close> inside the call and goes on when the awaited call settles.
  The model keeps, for every promise created, its tab, its state, whether its
  \<open>readyListener\<close> is registered, how far its executor has come, and the time of its
  creation; a promise is identified by its position in the list of the promises created.
  A clock in milliseconds stands for the time of the event loop.
\<close>

datatype promise_state = Pending | Fulfilled | RejectedWith jsstring

datatype executor_phase = AwaitingPing | AwaitingInjection | TimerArmed nat | TimerDone

record session =
  tab :: nat
  settled :: promise_state
  listener_on :: bool
  phase :: executor_phase
  created_at :: nat

datatype coordinator_action = PingSent nat nat | InjectionStarted nat nat

record coordinator =
  clock :: nat
  sessions :: "session list"
  contentScriptReadyPromises :: "nat \<rightharpoonup> nat"
  actions :: "coordinator_action list"

definition coordinator_init :: coordinator where
  "coordinator_init = \<lparr>clock = 0, sessions = [], contentScriptReadyPromises = Map.empty, actions = []\<rparr>"

text \<open>\<open>resolve\<close> and \<open>reject\<close> change the state of a pending promise and nothing else.\<close>

definition settle :: "promise_state \<Rightarrow> session \<Rightarrow> session" where
  "settle new x = (if settled x = Pending then x\<lparr>settled := new\<rparr> else x)"

definition remove_listener :: "session \<Rightarrow> session" where
  "remove_listener x = x\<lparr>listener_on := False\<rparr>"

definition update_session :: "nat \<Rightarrow> (session \<Rightarrow> session) \<Rightarrow> coordinator \<Rightarrow> coordinator" where
  "update_session p f s = s\<lparr>sessions := (sessions s)[p := f (sessions s ! p)]\<rparr>"

definition arm_timer :: "nat \<Rightarrow> session \<Rightarrow> session" where
  \<comment> \<open>\<open>setTimeout(..., 15000)\<close> at the time \<open>now\<close>\<close>
  "arm_timer now x = x\<lparr>phase := TimerArmed (now + 15000)\<rparr>"

definition timeout_text :: "nat \<Rightarrow> jsstring" where
  "timeout_text tabId =
     ''Content script in tab '' @ String_of_nat tabId @ '' did not send '' @ [CHR 0x27]
     @ ''contentScriptReady'' @ [CHR 0x27] @ '' signal after injection timeout.''"

text \<open>
  The call: an entry of the map is returned as it is; otherwise the promise is created,
  its listener is registered, the ping is sent, and the promise is stored in the map
  before the call returns.
\<close>

definition ensureContentScriptLoaded :: "nat \<Rightarrow> coordinator \<Rightarrow> nat \<times> coordinator" where
  "ensureContentScriptLoaded tabId s =
     (case contentScriptReadyPromises s tabId of
        Some p \<Rightarrow> (p, s)
      | None \<Rightarrow>
          (let p = length (sessions s)
           in (p, s\<lparr>sessions := sessions s @
                        [\<lparr>tab = tabId, settled = Pending, listener_on = True,
                          phase = AwaitingPing, created_at = clock s\<rparr>],
                     contentScriptReadyPromises := (contentScriptReadyPromises s)(tabId \<mapsto> p),
                     actions := actions s @ [PingSent p tabId]\<rparr>)))"

text \<open>The ping is answered: the listener is removed, the promise resolved, the timer set.\<close>

definition ping_answered :: "nat \<Rightarrow> coordinator \<Rightarrow> coordinator" where
  "ping_answered p s =
     (if p < length (sessions s) \<and> phase (sessions s ! p) = AwaitingPing then
        update_session p (arm_timer (clock s) \<circ> settle Fulfilled \<circ> remove_listener) s
      else s)"

text \<open>The ping fails: \<open>executeScript\<close> is called.\<close>

definition ping_failed :: "nat \<Rightarrow> coordinator \<Rightarrow> coordinator" where
  "ping_failed p s =
     (if p < length (sessions s) \<and> phase (sessions s ! p) = AwaitingPing then
        (update_session p (\<lambda>x. x\<lparr>phase := AwaitingInjection\<rparr>) s)
          \<lparr>actions := actions s @ [InjectionStarted p (tab (sessions s ! p))]\<rparr>
      else s)"

text \<open>\<open>executeScript\<close> returns: nothing but the timer is set.\<close>

definition injection_done :: "nat \<Rightarrow> coordinator \<Rightarrow> coordinator" where
  "injection_done p s =
     (if p < length (sessions s) \<and> phase (sessions s ! p) = AwaitingInjection then
        update_session p (arm_timer (clock s)) s
      else s)"

text \<open>\<open>executeScript\<close> throws: the listener is removed, the promise rejected, the timer set.\<close>

definition injection_failed :: "nat \<Rightarrow> jsstring \<Rightarrow> coordinator \<Rightarrow> coordinator" where
  "injection_failed p m s =
     (if p < length (sessions s) \<and> phase (sessions s ! p) = AwaitingInjection then
        update_session p
          (arm_timer (clock s)
             \<circ> settle (RejectedWith (''Failed to inject QTube_content.js: '' @ m))
             \<circ> remove_listener) s
      else s)"

text \<open>
  A message \<open>contentScriptReady\<close> arrives from the tab \<open>tabId\<close>: every registered
  \<open>readyListener\<close> of that tab removes itself and resolves its promise.
\<close>

definition ready_message :: "nat \<Rightarrow> coordinator \<Rightarrow> coordinator" where
  "ready_message tabId s =
     s\<lparr>sessions :=
         map (\<lambda>x. if listener_on x \<and> tab x = tabId then settle Fulfilled (remove_listener x) else x)
             (sessions s)\<rparr>"

text \<open>
  The timer of promise \<open>p\<close> fires, which it can do once its 15000 ms have passed. The
  handler acts when \<open>p\<close> is the promise stored for its tab: it removes the listener,
  rejects and deletes the entry.
\<close>

definition timeout :: "nat \<Rightarrow> coordinator \<Rightarrow> coordinator" where
  "timeout p s =
     (if p < length (sessions s) then
        (case phase (sessions s ! p) of
           TimerArmed due \<Rightarrow>
             if due \<le> clock s then
               (let tabId = tab (sessions s ! p);
                    s1 = update_session p (\<lambda>x. x\<lparr>phase := TimerDone\<rparr>) s
                in if contentScriptReadyPromises s tabId = Some p then
                     (update_session p
                        (settle (RejectedWith (timeout_text tabId)) \<circ> remove_listener) s1)
                       \<lparr>contentScriptReadyPromises := (contentScriptReadyPromises s)(tabId := None)\<rparr>
                   else s1)
             else s
         | _ \<Rightarrow> s)
      else s)"

datatype coordinator_event =
    Call nat
  | PingAnswered nat
  | PingFailed nat
  | InjectionDone nat
  | InjectionFailed nat jsstring
  | ReadyMessage nat
  | Timeout nat
  | Advance nat

fun coordinator_step :: "coordinator_event \<Rightarrow> coordinator \<Rightarrow> coordinator" where
  "coordinator_step (Call tabId) s = snd (ensureContentScriptLoaded tabId s)"
| "coordinator_step (PingAnswered p) s = ping_answered p s"
| "coordinator_step (PingFailed p) s = ping_failed p s"
| "coordinator_step (InjectionDone p) s = injection_done p s"
| "coordinator_step (InjectionFailed p m) s = injection_failed p m s"
| "coordinator_step (ReadyMessage tabId) s = ready_message tabId s"
| "coordinator_step (Timeout p) s = timeout p s"
| "coordinator_step (Advance d) s = s\<lparr>clock := clock s + d\<rparr>"

definition coordinator_run :: "coordinator_event list \<Rightarrow> coordinator \<Rightarrow> coordinator" where
  "coordinator_run evs s = foldl (\<lambda>s ev. coordinator_step ev s) s evs"

text \<open>
  What holds in every state that the events can reach: an entry of the map names a promise
  of that tab whose timer has not fired; a promise whose timer has not fired is the entry
  of its tab; a pending promise has its listener registered and its timer not fired; a
  timer is set for 15000 ms after a time that is not before the creation; no action is
  logged twice, and an injection is logged only for a promise that is past its ping, with
  the tab of that promise.
\<close>

definition coordinator_inv :: "coordinator \<Rightarrow> bool" where
  "coordinator_inv s =
     ((\<forall>t p. contentScriptReadyPromises s t = Some p \<longrightarrow>
          p < length (sessions s) \<and> tab (sessions s ! p) = t \<and> phase (sessions s ! p) \<noteq> TimerDone) \<and>
      (\<forall>p < length (sessions s). phase (sessions s ! p) \<noteq> TimerDone \<longrightarrow>
          contentScriptReadyPromises s (tab (sessions s ! p)) = Some p) \<and>
      (\<forall>p < length (sessions s). settled (sessions s ! p) = Pending \<longrightarrow>
          listener_on (sessions s ! p) \<and> phase (sessions s ! p) \<noteq> TimerDone) \<and>
      (\<forall>p < length (sessions s). created_at (sessions s ! p) \<le> clock s \<and>
          (\<forall>due. phase (sessions s ! p) = TimerArmed due \<longrightarrow>
             created_at (sessions s ! p) + 15000 \<le> due)) \<and>
      distinct (actions s) \<and>
      (\<forall>p t. InjectionStarted p t \<in> set (actions s) \<longrightarrow>
          p < length (sessions s) \<and> phase (sessions s ! p) \<noteq> AwaitingPing \<and>
          t = tab (sessions s ! p)) \<and>
      (\<forall>p t. PingSent p t \<in> set (actions s) \<longrightarrow> p < length (sessions s)))"

text \<open>
  How one promise may change in a step that leaves the map and the log alone: its tab and
  its time of creation stay, its timer does not fire, it does not go back to pending nor
  lose its listener while pending, a timer newly set is due 15000 ms or more after the
  creation, and it does not go back to awaiting the ping.
\<close>

definition evolves :: "session \<Rightarrow> session \<Rightarrow> bool" where
  "evolves x y =
     (tab y = tab x \<and> created_at y = created_at x \<and>
      (phase y = TimerDone \<longleftrightarrow> phase x = TimerDone) \<and>
      (settled y = Pending \<longrightarrow> settled x = Pending \<and> (listener_on x \<longrightarrow> listener_on y)) \<and>
      (\<forall>due. phase y = TimerArmed due \<longrightarrow> phase x = TimerArmed due \<or> created_at x + 15000 \<le> due) \<and>
      (phase y = AwaitingPing \<longrightarrow> phase x = AwaitingPing))"

text \<open>The message of the error with which a failed injection rejects the promise.\<close>

definition injection_error :: "jsstring \<Rightarrow> jsstring" where
  "injection_error m = ''Failed to inject QTube_content.js: '' @ m"

text \<open>The number of calls of \<open>executeScript\<close> made for the promise \<open>p\<close>.\<close>

definition injections_of :: "nat \<Rightarrow> coordinator \<Rightarrow> nat" where
  "injections_of p s =
     length (filter (\<lambda>a. case a of InjectionStarted q t \<Rightarrow> q = p | PingSent q t \<Rightarrow> False) (actions s))"

text \<open>
  Two sample runs on tab 7: one where the ping fails and the script is injected, with
  further calls in between, and one where the ping is answered after 100 ms.
\<close>

definition no_listener_run :: "coordinator_event list" where
  "no_listener_run = [Call 7, Call 7, Advance 5, PingFailed 0, Call 7, Advance 50, InjectionDone 0]"

definition answered_run :: "coordinator_event list" where
  "answered_run = [Call 7, Advance 100, PingAnswered 0, Advance 15000]"
section \<open>Properties of the timestamp parser\<close>

lemma lazy_dots_end:
  "\<forall>c\<in>set d. c \<noteq> NL \<and> c \<noteq> CR \<Longrightarrow> lazy_dots acc d = Some (acc @ d, [])"
  by (induction d arbitrary: acc) (simp_all add: is_dot_def)

lemma lazy_dots_newline:
  "\<forall>c\<in>set d. c \<noteq> NL \<and> c \<noteq> CR \<Longrightarrow> lazy_dots acc (d @ NL # post) = Some (acc @ d, [NL])"
  by (induction d arbitrary: acc) (simp_all add: is_dot_def)

lemma lazy_dots_sound:
  "lazy_dots acc r = Some (x, e) \<Longrightarrow>
     \<exists>d. x = acc @ d \<and> (\<forall>c\<in>set d. c \<noteq> NL \<and> c \<noteq> CR) \<and>
         ((e = [] \<and> r = d) \<or> (e = [NL] \<and> prefix (d @ [NL]) r))"
proof (induction r arbitrary: acc)
  case Nil
  then show ?case by simp
next
  case (Cons c r)
  show ?case
  proof (cases "c = NL")
    case True
    with Cons.prems show ?thesis by auto
  next
    case False
    with Cons.prems have d: "is_dot c" and rec: "lazy_dots (acc @ [c]) r = Some (x, e)"
      by (auto split: if_splits)
    from Cons.IH [OF rec] obtain y where y: "x = (acc @ [c]) @ y" "\<forall>c\<in>set y. c \<noteq> NL \<and> c \<noteq> CR"
      "(e = [] \<and> r = y) \<or> (e = [NL] \<and> prefix (y @ [NL]) r)"
      by blast
    from y d have "x = acc @ (c # y) \<and> (\<forall>a\<in>set (c # y). a \<noteq> NL \<and> a \<noteq> CR) \<and>
         ((e = [] \<and> c # r = c # y) \<or> (e = [NL] \<and> prefix ((c # y) @ [NL]) (c # r)))"
      by (auto simp: is_dot_def)
    then show ?thesis by blast
  qed
qed

lemma match_after_bracket_sound:
  assumes "match_after_bracket r = Some (desc, t)"
  shows "spec_line_rest r desc t"
proof (cases "take 3 r = '' - ''")
  case True
  then have r: "r = '' - '' @ drop 3 r"
    by (metis append_take_drop_id)
  show ?thesis
  proof (cases "lazy_dots [] (drop 3 r)")
    case None
    with True assms r show ?thesis
      by (cases r) (auto simp: match_after_bracket_def split: if_splits)
  next
    case (Some p)
    obtain x e where p: "p = (x, e)" by (cases p)
    from lazy_dots_sound [of "[]" "drop 3 r" x e] Some p
    have dots: "\<forall>c\<in>set x. c \<noteq> NL \<and> c \<noteq> CR"
      and e: "(e = [] \<and> drop 3 r = x) \<or> (e = [NL] \<and> prefix (x @ [NL]) (drop 3 r))" by auto
    from True Some p assms have dt: "desc = Some x" "t = '' - '' @ x @ e"
      by (auto simp: match_after_bracket_def)
    from e have "(t = '' - '' @ x \<and> r = t) \<or> (t = '' - '' @ x @ [NL] \<and> prefix t r)"
    proof
      assume "e = [] \<and> drop 3 r = x"
      with r dt show ?thesis by simp
    next
      assume a: "e = [NL] \<and> prefix (x @ [NL]) (drop 3 r)"
      then have "prefix ('' - '' @ x @ [NL]) ('' - '' @ drop 3 r)" by simp
      with r have "prefix ('' - '' @ x @ [NL]) r" by simp
      with a dt show ?thesis by simp
    qed
    with dots dt show ?thesis by (simp add: spec_line_rest_def)
  qed
next
  case False
  with assms show ?thesis
    by (cases r) (auto simp: match_after_bracket_def spec_line_rest_def split: if_splits)
qed

lemma match_after_bracket_complete:
  assumes "spec_line_rest r desc t"
  shows "match_after_bracket r = Some (desc, t)"
proof (cases desc)
  case None
  with assms consider (e) "t = []" "r = []" | (n) "t = [NL]" "prefix t r"
    by (auto simp: spec_line_rest_def)
  then show ?thesis
  proof cases
    case e
    with None show ?thesis by (simp add: match_after_bracket_def)
  next
    case n
    then obtain post where "r = NL # post" by (auto simp: prefix_def)
    with n None show ?thesis by (simp add: match_after_bracket_def)
  qed
next
  case (Some d)
  with assms have dots: "\<forall>c\<in>set d. c \<noteq> NL \<and> c \<noteq> CR"
    and alt: "(t = '' - '' @ d \<and> r = t) \<or> (t = '' - '' @ d @ [NL] \<and> prefix t r)"
    by (auto simp: spec_line_rest_def)
  from alt show ?thesis
  proof
    assume a: "t = '' - '' @ d \<and> r = t"
    with lazy_dots_end [OF dots, of "[]"] Some show ?thesis
      by (simp add: match_after_bracket_def)
  next
    assume a: "t = '' - '' @ d @ [NL] \<and> prefix t r"
    then obtain post where r: "r = '' - '' @ d @ NL # post" by (auto simp: prefix_def)
    with lazy_dots_newline [OF dots, of "[]" post] a Some show ?thesis
      by (simp add: match_after_bracket_def)
  qed
qed

lemma match_after_bracket_iff:
  "match_after_bracket r = Some (desc, t) \<longleftrightarrow> spec_line_rest r desc t"
  using match_after_bracket_sound match_after_bracket_complete by blast

lemma not_digit_colon: "\<not> is_digit (CHR '':'')"
  by (simp add: is_digit_def)

lemma match_here_marker:
  assumes "length md = 1 \<or> length md = 2" "length sd = 2" "\<forall>c\<in>set (md @ sd). is_digit c"
  shows "match_here i (spec_marker md sd @ r) =
     (case match_after_bracket r of
        Some (d, t) \<Rightarrow> Some \<lparr>m_index = i, m_full = spec_marker md sd @ t,
                             m_minutes = md, m_seconds = sd, m_desc = d\<rparr>
      | None \<Rightarrow> None)"
proof -
  from assms(2) obtain s1 s2 where sd: "sd = [s1, s2]"
    by (cases sd; cases "tl sd"; cases "tl (tl sd)") auto
  from assms(1) consider (one) d where "md = [d]" | (two) a b where "md = [a, b]"
    by (cases md; cases "tl md"; cases "tl (tl md)") auto
  then show ?thesis
  proof cases
    case one
    with assms(3) sd not_digit_colon show ?thesis
      by (simp add: match_here_def match_after_minutes_def spec_marker_def
               split: option.splits)
  next
    case two
    with assms(3) sd not_digit_colon show ?thesis
      by (auto simp: match_here_def match_after_minutes_def spec_marker_def
               split: option.splits)
  qed
qed

lemma match_after_minutes_shape:
  assumes "match_after_minutes i md r = Some m"
  shows "\<exists>s1 s2 t r'. r = CHR '':'' # s1 # s2 # CHR '']'' # r' \<and> is_digit s1 \<and> is_digit s2 \<and>
           match_after_bracket r' = Some (m_desc m, t) \<and>
           m_index m = i \<and> m_full m = CHR ''['' # md @ CHR '':'' # s1 # s2 # CHR '']'' # t \<and>
           m_minutes m = md \<and> m_seconds m = [s1, s2]"
proof -
  from assms obtain c s1 s2 b r' where r: "r = c # s1 # s2 # b # r'"
    by (auto simp: match_after_minutes_def split: list.splits)
  with assms have cond: "c = CHR '':''" "is_digit s1" "is_digit s2" "b = CHR '']''"
    by (auto simp: match_after_minutes_def split: if_splits)
  with assms r obtain d t where mab: "match_after_bracket r' = Some (d, t)"
    and m: "m = \<lparr>m_index = i, m_full = CHR ''['' # md @ CHR '':'' # s1 # s2 # CHR '']'' # t,
                       m_minutes = md, m_seconds = [s1, s2], m_desc = d\<rparr>"
    by (auto simp: match_after_minutes_def split: option.splits)
  from m have f: "m_desc m = d" "m_index m = i"
    "m_full m = CHR ''['' # md @ CHR '':'' # s1 # s2 # CHR '']'' # t"
    "m_minutes m = md" "m_seconds m = [s1, s2]" by simp_all
  from mab f(1) have "match_after_bracket r' = Some (m_desc m, t)" by simp
  with r cond f(2-5) show ?thesis by blast
qed

lemma match_here_shape:
  assumes "match_here i s = Some m"
  shows "\<exists>md sd t r. (length md = 1 \<or> length md = 2) \<and> length sd = 2 \<and>
           (\<forall>c \<in> set (md @ sd). is_digit c) \<and>
           s = spec_marker md sd @ r \<and> match_after_bracket r = Some (m_desc m, t) \<and>
           m_index m = i \<and> m_full m = spec_marker md sd @ t \<and>
           m_minutes m = md \<and> m_seconds m = sd"
proof -
  from assms obtain b d1 r1 where s: "s = b # d1 # r1"
    by (auto simp: match_here_def split: list.splits)
  with assms have cond: "b = CHR ''[''" "is_digit d1"
    by (auto simp: match_here_def split: if_splits)
  from assms s cond consider
      (two) d2 r2 where "r1 = d2 # r2" "is_digit d2" "match_after_minutes i [d1, d2] r2 = Some m"
    | (one) "match_after_minutes i [d1] r1 = Some m"
    by (auto simp: match_here_def split: option.splits list.splits if_splits)
  then show ?thesis
  proof cases
    case two
    from match_after_minutes_shape [OF two(3)] obtain s1 s2 t r' where
      sh: "r2 = CHR '':'' # s1 # s2 # CHR '']'' # r'" "is_digit s1" "is_digit s2"
          "match_after_bracket r' = Some (m_desc m, t)"
          "m_index m = i" "m_full m = CHR ''['' # [d1, d2] @ CHR '':'' # s1 # s2 # CHR '']'' # t"
          "m_minutes m = [d1, d2]" "m_seconds m = [s1, s2]"
      by blast
    have "(length [d1, d2] = 1 \<or> length [d1, d2] = 2) \<and> length [s1, s2] = 2 \<and>
           (\<forall>c \<in> set ([d1, d2] @ [s1, s2]). is_digit c) \<and>
           s = spec_marker [d1, d2] [s1, s2] @ r' \<and> match_after_bracket r' = Some (m_desc m, t) \<and>
           m_index m = i \<and> m_full m = spec_marker [d1, d2] [s1, s2] @ t \<and>
           m_minutes m = [d1, d2] \<and> m_seconds m = [s1, s2]"
      using s cond two(1,2) sh by (simp add: spec_marker_def)
    then show ?thesis by blast
  next
    case one
    from match_after_minutes_shape [OF one] obtain s1 s2 t r' where
      sh: "r1 = CHR '':'' # s1 # s2 # CHR '']'' # r'" "is_digit s1" "is_digit s2"
          "match_after_bracket r' = Some (m_desc m, t)"
          "m_index m = i" "m_full m = CHR ''['' # [d1] @ CHR '':'' # s1 # s2 # CHR '']'' # t"
          "m_minutes m = [d1]" "m_seconds m = [s1, s2]"
      by blast
    have "(length [d1] = 1 \<or> length [d1] = 2) \<and> length [s1, s2] = 2 \<and>
           (\<forall>c \<in> set ([d1] @ [s1, s2]). is_digit c) \<and>
           s = spec_marker [d1] [s1, s2] @ r' \<and> match_after_bracket r' = Some (m_desc m, t) \<and>
           m_index m = i \<and> m_full m = spec_marker [d1] [s1, s2] @ t \<and>
           m_minutes m = [d1] \<and> m_seconds m = [s1, s2]"
      using s cond sh by (simp add: spec_marker_def)
    then show ?thesis by blast
  qed
qed

lemma spec_line_rest_prefix: "spec_line_rest r desc t \<Longrightarrow> prefix t r"
  by (auto simp: spec_line_rest_def split: option.splits)

lemma match_here_sound:
  assumes "match_here i s = Some m"
  shows "m_index m = i \<and>
         spec_timestamp_line s (m_minutes m) (m_seconds m) (m_desc m) (m_full m)"
proof -
  from match_here_shape [OF assms] obtain md sd t r where
    sh: "length md = 1 \<or> length md = 2" "length sd = 2" "\<forall>c \<in> set (md @ sd). is_digit c"
        "s = spec_marker md sd @ r" "match_after_bracket r = Some (m_desc m, t)"
    and f: "m_index m = i" "m_full m = spec_marker md sd @ t" "m_minutes m = md" "m_seconds m = sd"
    by blast
  from sh(5) have "spec_line_rest r (m_desc m) t" by (rule match_after_bracket_sound)
  with sh(1-4) f show ?thesis
    by (simp add: spec_timestamp_line_def)
qed

lemma match_here_complete:
  assumes "spec_timestamp_line s md sd desc full"
  shows "match_here i s = Some \<lparr>m_index = i, m_full = full, m_minutes = md, m_seconds = sd,
                                m_desc = desc\<rparr>"
proof -
  from assms have v: "length md = 1 \<or> length md = 2" "length sd = 2" "\<forall>c\<in>set (md @ sd). is_digit c"
    and ps: "prefix (spec_marker md sd) s" and pf: "prefix (spec_marker md sd) full"
    and rest: "spec_line_rest (drop (length (spec_marker md sd)) s) desc
                              (drop (length (spec_marker md sd)) full)"
    by (simp_all add: spec_timestamp_line_def)
  from ps obtain r where s: "s = spec_marker md sd @ r" by (auto simp: prefix_def)
  from pf obtain t where full: "full = spec_marker md sd @ t" by (auto simp: prefix_def)
  from rest s full have "spec_line_rest r desc t" by simp
  then have "match_after_bracket r = Some (desc, t)" by (rule match_after_bracket_complete)
  with match_here_marker [OF v, of i r] s full show ?thesis by simp
qed

lemma match_here_nonempty: "match_here i s = Some m \<Longrightarrow> m_full m \<noteq> [] \<and> m_index m = i \<and> prefix (m_full m) s"
proof -
  assume a: "match_here i s = Some m"
  from match_here_shape [OF a] obtain md sd t r where
    sh: "s = spec_marker md sd @ r" "match_after_bracket r = Some (m_desc m, t)"
    and f: "m_index m = i" "m_full m = spec_marker md sd @ t"
    by blast
  from match_after_bracket_sound [OF sh(2)] have "prefix t r" by (rule spec_line_rest_prefix)
  with sh(1) f show ?thesis by (simp add: spec_marker_def)
qed

lemma exec_all_located:
  "m \<in> set (exec_all i s) \<Longrightarrow> i \<le> m_index m \<and> prefix (m_full m) (drop (m_index m - i) s)
      \<and> match_here (m_index m) (drop (m_index m - i) s) = Some m"
proof (induction i s rule: exec_all.induct)
  case (1 i)
  then show ?case by simp
next
  case (2 i c r)
  show ?case
  proof (cases "match_here i (c # r)")
    case None
    with "2.prems" have mem: "m \<in> set (exec_all (i + 1) r)" by simp
    from "2.IH"(1) [OF None mem] have le: "i + 1 \<le> m_index m"
      and pre: "prefix (m_full m) (drop (m_index m - (i + 1)) r)"
      and mh: "match_here (m_index m) (drop (m_index m - (i + 1)) r) = Some m" by auto
    from le have "m_index m - i = Suc (m_index m - (i + 1))" by arith
    then have "drop (m_index m - i) (c # r) = drop (m_index m - (i + 1)) r"
      by (simp only: drop_Suc_Cons)
    with le pre mh show ?thesis by simp
  next
    case (Some m0)
    note ne = match_here_nonempty [OF Some]
    show ?thesis
    proof (cases "m = m0")
      case True
      with ne Some show ?thesis by simp
    next
      case False
      with "2.prems" Some
      have mem: "m \<in> set (exec_all (i + length (m_full m0)) (drop (length (m_full m0) - 1) r))"
        by simp
      from "2.IH"(2) [OF Some mem]
      have le: "i + length (m_full m0) \<le> m_index m"
        and pre: "prefix (m_full m) (drop (m_index m - (i + length (m_full m0))) (drop (length (m_full m0) - 1) r))"
        and mh: "match_here (m_index m) (drop (m_index m - (i + length (m_full m0))) (drop (length (m_full m0) - 1) r)) = Some m"
        by auto
      from ne have pos: "0 < length (m_full m0)" by simp
      with le have "m_index m - i
          = Suc ((m_index m - (i + length (m_full m0))) + (length (m_full m0) - 1))"
        by arith
      then have "drop (m_index m - i) (c # r)
          = drop (m_index m - (i + length (m_full m0))) (drop (length (m_full m0) - 1) r)"
        by (simp only: drop_Suc_Cons drop_drop)
      with le pre mh show ?thesis by simp
    qed
  qed
qed

lemma exec_all_lower: "m \<in> set (exec_all i s) \<Longrightarrow> i \<le> m_index m"
  using exec_all_located by blast

lemma exec_all_disjoint:
  "sorted_wrt (\<lambda>m m'. m_index m + length (m_full m) \<le> m_index m') (exec_all i s)"
proof (induction i s rule: exec_all.induct)
  case (1 i)
  then show ?case by simp
next
  case (2 i c r)
  show ?case
  proof (cases "match_here i (c # r)")
    case None
    with "2.IH"(1) [OF None] show ?thesis by simp
  next
    case (Some m0)
    note ne = match_here_nonempty [OF Some]
    have "\<forall>m \<in> set (exec_all (i + length (m_full m0)) (drop (length (m_full m0) - 1) r)).
            m_index m0 + length (m_full m0) \<le> m_index m"
    proof
      fix m assume "m \<in> set (exec_all (i + length (m_full m0)) (drop (length (m_full m0) - 1) r))"
      from exec_all_lower [OF this] ne show "m_index m0 + length (m_full m0) \<le> m_index m" by simp
    qed
    with "2.IH"(2) [OF Some] Some show ?thesis by simp
  qed
qed

lemma exec_all_complete:
  "match_here (i + j) (drop j s) = Some m \<Longrightarrow>
     m \<in> set (exec_all i s) \<or>
     (\<exists>m'\<in>set (exec_all i s). m_index m' < i + j \<and> i + j < m_index m' + length (m_full m'))"
proof (induction i s arbitrary: j rule: exec_all.induct)
  case (1 i)
  then show ?case by (simp add: match_here_def)
next
  case (2 i c r)
  show ?case
  proof (cases j)
    case 0
    with "2.prems" show ?thesis by simp
  next
    case (Suc k)
    with "2.prems" have mk: "match_here (i + 1 + k) (drop k r) = Some m" by simp
    show ?thesis
    proof (cases "match_here i (c # r)")
      case None
      from "2.IH"(1) [OF None mk] None Suc show ?thesis by simp
    next
      case (Some m0)
      note ne = match_here_nonempty [OF Some]
      let ?L = "length (m_full m0)"
      from ne have pos: "0 < ?L" by simp
      show ?thesis
      proof (cases "j < ?L")
        case True
        with ne Suc Some show ?thesis by auto
      next
        case False
        then have ge: "?L \<le> j" by simp
        with pos Suc have kd: "k = (j - ?L) + (?L - 1)" by arith
        have ij: "i + ?L + (j - ?L) = i + j" using ge by arith
        have "drop (j - ?L) (drop (?L - 1) r) = drop k r"
          by (subst kd) (simp only: drop_drop)
        with "2.prems" Suc ij
        have "match_here (i + ?L + (j - ?L)) (drop (j - ?L) (drop (?L - 1) r)) = Some m"
          by simp
        from "2.IH"(2) [OF Some this] ij Some show ?thesis by auto
      qed
    qed
  qed
qed

lemma match_here_index:
  "match_here k s = (case match_here i s of None \<Rightarrow> None | Some m \<Rightarrow> Some (m\<lparr>m_index := k\<rparr>))"
proof (cases "match_here i s")
  case None
  have "match_here k s = None"
  proof (rule ccontr)
    assume "match_here k s \<noteq> None"
    then obtain m where m: "match_here k s = Some m" by auto
    from match_here_sound [OF m] have "spec_timestamp_line s (m_minutes m) (m_seconds m) (m_desc m) (m_full m)"
      by simp
    from match_here_complete [OF this, of i] None show False by simp
  qed
  with None show ?thesis by simp
next
  case (Some m)
  from match_here_sound [OF Some] have "spec_timestamp_line s (m_minutes m) (m_seconds m) (m_desc m) (m_full m)"
    and ix: "m_index m = i" by simp_all
  from match_here_complete [OF this(1), of k] match_here_complete [OF this(1), of i] Some
  show ?thesis by auto
qed

lemma citation_of_index: "citation_of (m\<lparr>m_index := k\<rparr>) = citation_of m"
  by (simp add: citation_of_def)

lemma exec_all_citations_index:
  "map citation_of (exec_all i s) = map citation_of (exec_all k s)"
proof (induction i s arbitrary: k rule: exec_all.induct)
  case (1 i)
  then show ?case by simp
next
  case (2 i c r)
  show ?case
  proof (cases "match_here i (c # r)")
    case None
    with match_here_index [of k "c # r" i] have "match_here k (c # r) = None" by simp
    with None "2.IH"(1) [OF None, of "k + 1"] show ?thesis by simp
  next
    case (Some m0)
    with match_here_index [of k "c # r" i]
    have mk: "match_here k (c # r) = Some (m0\<lparr>m_index := k\<rparr>)" by simp
    from "2.IH"(2) [OF Some, of "k + length (m_full m0)"] Some mk show ?thesis
      by (simp add: citation_of_index)
  qed
qed

lemma match_here_needs_bracket: "match_here i (c # r) = Some m \<Longrightarrow> c = CHR ''[''"
  by (auto simp: match_here_def split: list.splits if_splits)

lemma exec_all_skip:
  "CHR ''['' \<notin> set pre \<Longrightarrow> exec_all i (pre @ s) = exec_all (i + length pre) s"
proof (induction pre arbitrary: i)
  case Nil
  then show ?case by simp
next
  case (Cons c pre)
  then have c: "c \<noteq> CHR ''[''" and p: "CHR ''['' \<notin> set pre" by auto
  have "match_here i (c # pre @ s) = None"
  proof (cases "match_here i (c # pre @ s)")
    case None
    then show ?thesis .
  next
    case (Some m)
    from match_here_needs_bracket [OF Some] c show ?thesis by simp
  qed
  with Cons.IH [OF p, of "i + 1"] show ?case by simp
qed

lemma digit_val_lt: "is_digit c \<Longrightarrow> digit_val c < 10"
  by (auto simp: is_digit_def digit_val_def)

lemma digit_char_val: "is_digit c \<Longrightarrow> digit_char (digit_val c) = c"
  unfolding is_digit_def digit_val_def digit_char_def
  by auto

lemma nat_digits_pos: "0 < k \<Longrightarrow> nat_digits k n =
     (if n < 10 then [digit_char n] else nat_digits (k - 1) (n div 10) @ [digit_char (n mod 10)])"
  by (cases k) auto

lemma String_of_nat_small: "n < 10 \<Longrightarrow> String_of_nat n = [digit_char n]"
  by (simp add: String_of_nat_def)

lemma String_of_nat_two: "a < 10 \<Longrightarrow> b < 10 \<Longrightarrow> 0 < a \<Longrightarrow> String_of_nat (10 * a + b) = [digit_char a, digit_char b]"
  by (simp add: String_of_nat_def nat_digits_pos)

lemma pad2_one: "is_digit d \<Longrightarrow> padStart (String_of_nat (parseInt10 [d])) 2 (CHR ''0'') = [CHR ''0'', d]"
  by (simp add: parseInt10_def String_of_nat_small digit_val_lt digit_char_val padStart_def)

lemma pad2_two: "is_digit a \<Longrightarrow> is_digit b \<Longrightarrow> padStart (String_of_nat (parseInt10 [a, b])) 2 (CHR ''0'') = [a, b]"
proof (cases "digit_val a = 0")
  case True
  assume da: "is_digit a" and db: "is_digit b"
  from da True have "a = CHR ''0''" by (auto simp: is_digit_def digit_val_def)
  with db True show ?thesis
    by (simp add: parseInt10_def String_of_nat_small digit_val_lt digit_char_val padStart_def)
next
  case False
  assume da: "is_digit a" and db: "is_digit b"
  with False show ?thesis
    by (simp add: parseInt10_def String_of_nat_two digit_val_lt digit_char_val padStart_def)
qed

lemma pad2_digits:
  assumes "length md = 1 \<or> length md = 2" "\<forall>c \<in> set md. is_digit c"
  shows "padStart (String_of_nat (parseInt10 md)) 2 (CHR ''0'') = padStart md 2 (CHR ''0'')"
proof -
  from assms(1) consider (one) d where "md = [d]" | (two) a b where "md = [a, b]"
    by (cases md; cases "tl md"; cases "tl (tl md)") auto
  then show ?thesis
  proof cases
    case one
    with assms(2) show ?thesis by (simp add: pad2_one) (simp add: padStart_def)
  next
    case two
    with assms(2) show ?thesis by (simp add: pad2_two) (simp add: padStart_def)
  qed
qed

lemma citation_of_spec:
  assumes "length md = 1 \<or> length md = 2" "length sd = 2" "\<forall>c \<in> set (md @ sd). is_digit c"
    "m_minutes m = md" "m_seconds m = sd"
  shows "citation_of m = spec_citation md sd (m_desc m)"
proof -
  from assms(2,3) obtain s1 s2 where sd: "sd = [s1, s2]" "is_digit s1" "is_digit s2"
    by (cases sd; cases "tl sd"; cases "tl (tl sd)") auto
  from assms(1,3) have p1: "padStart (String_of_nat (parseInt10 md)) 2 (CHR ''0'') = padStart md 2 (CHR ''0'')"
    by (intro pad2_digits) auto
  have p2: "padStart (String_of_nat (parseInt10 sd)) 2 (CHR ''0'') = sd"
    using sd by (simp add: pad2_two)
  have d: "(case m_desc m of None \<Rightarrow> [] | Some d \<Rightarrow> if d = [] then [] else trim d)
         = (case m_desc m of None \<Rightarrow> [] | Some d \<Rightarrow> trim d)"
    by (simp add: trim_def split: option.splits)
  show ?thesis
    unfolding citation_of_def spec_citation_def Let_def assms(4,5) p1 p2 d by simp
qed

lemma citation_of_line:
  assumes "spec_timestamp_line s (m_minutes m) (m_seconds m) (m_desc m) (m_full m)"
  shows "citation_of m = spec_citation (m_minutes m) (m_seconds m) (m_desc m)"
  using assms by (intro citation_of_spec) (simp_all add: spec_timestamp_line_def)

text \<open>
  Claim C3. On the input \<^verbatim>\<open>"[01:23] - Intro\nSome text\n[00:05]\n"\<close> the parser returns
  the two citations 83 s \<open>01:23\<close> \<open>Intro\<close> and 5 s \<open>00:05\<close> with the empty description, in
  that order, and an answer that contains \<open>Some text\<close>. The answer is not free of bracket
  markers: the loop trims \<open>cleanAnswer\<close> after removing the first match, which drops the
  newline that ends the input, so the text \<^verbatim>\<open>"[00:05]\n"\<close> of the second match no longer
  occurs in it and the marker \<open>[00:05]\<close> stays in the answer.
\<close>

theorem parse_answer_on_spec_example:
  "parse_answer (''[01:23] - Intro'' @ [NL] @ ''Some text'' @ [NL] @ ''[00:05]'' @ [NL]) =
     \<lparr>answer = ''Some text'' @ [NL] @ ''[00:05]'',
      timestamps = [\<lparr>time = 83, timestamp = ''01:23'', description = ''Intro''\<rparr>,
                    \<lparr>time = 5, timestamp = ''00:05'', description = []\<rparr>]\<rparr>"
  by code_simp

text \<open>
  Claim C9. For every raw answer text the citations are those of the timestamp lines that
  the loop reports, one citation per line and in the same order. (1) The citation of a
  reported line has as its time the number read from the minutes times 60 plus the number
  read from the seconds, as its label the minutes padded with \<open>0\<close> to two characters, a
  colon and the two digits of the seconds, and as its description the trimmed description
  of the line, or the empty string when the line has none. (2) The reported lines follow
  one another in the text without overlap, each starting at or after the end of the one
  before, so the citations are in the order of first occurrence, whatever their times.
  (3) Every reported line is a timestamp line of the specification at its index of the
  text: \<open>[\<close>, one or two digits, \<open>:\<close>, two digits, \<open>]\<close>, then either the end of the line, or
  \<^verbatim>\<open> - \<close> and a description that runs to the end of the line; the line ends with a newline
  or with the text. (4) Conversely every place of the text where such a line starts is
  reported with exactly these minutes, seconds, description and extent, unless it lies
  inside a reported line that starts before it. (5) No range is checked: when a timestamp
  line of any digits (seconds of 60 and more too) comes after a text without \<open>[\<close>, its
  citation is the first one, and the citations of the text after the line follow.
\<close>

theorem parser_citations_in_text_order:
  "timestamps (parse_answer raw) =
     map (\<lambda>m. spec_citation (m_minutes m) (m_seconds m) (m_desc m)) (exec_all 0 raw) \<and>
   sorted_wrt (\<lambda>m m'. m_index m + length (m_full m) \<le> m_index m') (exec_all 0 raw) \<and>
   (\<forall>m \<in> set (exec_all 0 raw).
       m_full m \<noteq> [] \<and>
       spec_timestamp_line (drop (m_index m) raw) (m_minutes m) (m_seconds m) (m_desc m) (m_full m)) \<and>
   (spec_timestamp_line (drop j raw) md sd desc full \<longrightarrow>
       \<lparr>m_index = j, m_full = full, m_minutes = md, m_seconds = sd, m_desc = desc\<rparr>
          \<in> set (exec_all 0 raw) \<or>
       (\<exists>m \<in> set (exec_all 0 raw). m_index m < j \<and> j < m_index m + length (m_full m))) \<and>
   (CHR ''['' \<notin> set pre \<and> spec_timestamp_line s md sd desc full \<longrightarrow>
       timestamps (parse_answer (pre @ s)) =
         spec_citation md sd desc # timestamps (parse_answer (drop (length full) s)))"
proof (intro conjI ballI impI)
  have "map citation_of (exec_all 0 raw)
      = map (\<lambda>m. spec_citation (m_minutes m) (m_seconds m) (m_desc m)) (exec_all 0 raw)"
  proof (rule map_cong [OF refl])
    fix m assume mem: "m \<in> set (exec_all 0 raw)"
    from exec_all_located [OF mem]
    have mh: "match_here (m_index m) (drop (m_index m) raw) = Some m" by simp
    from match_here_sound [OF mh] show "citation_of m = spec_citation (m_minutes m) (m_seconds m) (m_desc m)"
      by (intro citation_of_line) simp
  qed
  then show "timestamps (parse_answer raw) =
     map (\<lambda>m. spec_citation (m_minutes m) (m_seconds m) (m_desc m)) (exec_all 0 raw)"
    by (simp add: parse_answer_def Let_def)
next
  show "sorted_wrt (\<lambda>m m'. m_index m + length (m_full m) \<le> m_index m') (exec_all 0 raw)"
    by (rule exec_all_disjoint)
next
  fix m assume mem: "m \<in> set (exec_all 0 raw)"
  from exec_all_located [OF mem]
  have mh: "match_here (m_index m) (drop (m_index m) raw) = Some m" by simp
  from match_here_nonempty [OF mh] show "m_full m \<noteq> []" by simp
  from match_here_sound [OF mh]
  show "spec_timestamp_line (drop (m_index m) raw) (m_minutes m) (m_seconds m) (m_desc m) (m_full m)"
    by simp
next
  assume a: "spec_timestamp_line (drop j raw) md sd desc full"
  let ?m = "\<lparr>m_index = j, m_full = full, m_minutes = md, m_seconds = sd, m_desc = desc\<rparr>"
  from match_here_complete [OF a, of j] have "match_here (0 + j) (drop j raw) = Some ?m" by simp
  from exec_all_complete [OF this]
  show "?m \<in> set (exec_all 0 raw) \<or>
       (\<exists>m \<in> set (exec_all 0 raw). m_index m < j \<and> j < m_index m + length (m_full m))"
    by simp
next
  assume a: "CHR ''['' \<notin> set pre \<and> spec_timestamp_line s md sd desc full"
  then have nb: "CHR ''['' \<notin> set pre" and line: "spec_timestamp_line s md sd desc full" by simp_all
  let ?k = "length pre"
  let ?m = "\<lparr>m_index = ?k, m_full = full, m_minutes = md, m_seconds = sd, m_desc = desc\<rparr>"
  have mh: "match_here ?k s = Some ?m" using line by (rule match_here_complete)
  from match_here_nonempty [OF mh] have ne: "full \<noteq> []" by simp
  from mh obtain c r where s: "s = c # r" by (cases s) (auto simp: match_here_def)
  from ne have dr: "drop (length full - 1) r = drop (length full) s"
    unfolding s by (cases full) simp_all
  have e1: "exec_all 0 (pre @ s) = exec_all ?k s"
    using exec_all_skip [OF nb, of 0 s] by simp
  have e2: "exec_all ?k s = ?m # exec_all (?k + length full) (drop (length full) s)"
    using mh dr unfolding s by simp
  have c1: "citation_of ?m = spec_citation md sd desc"
    using line by (intro citation_of_spec [where m = ?m and md = md and sd = sd, simplified])
       (simp_all add: spec_timestamp_line_def)
  have c2: "map citation_of (exec_all (?k + length full) (drop (length full) s))
          = map citation_of (exec_all 0 (drop (length full) s))"
    by (rule exec_all_citations_index)
  show "timestamps (parse_answer (pre @ s)) =
         spec_citation md sd desc # timestamps (parse_answer (drop (length full) s))"
    unfolding parse_answer_def Let_def e1 e2 using c1 c2 by simp
qed

theorem parser_citations_in_text_order_witness:
  "timestamps (parse_answer (''[12:10] - see [1:02]'' @ [NL] @ ''[1:75] - late ''))
     = [\<lparr>time = 730, timestamp = ''12:10'', description = ''see [1:02]''\<rparr>,
        \<lparr>time = 135, timestamp = ''01:75'', description = ''late''\<rparr>] \<and>
   map m_index (exec_all 0 (''[12:10] - see [1:02]'' @ [NL] @ ''[1:75] - late '')) = [0, 21] \<and>
   sorted_wrt (\<lambda>m m'. m_index m + length (m_full m) \<le> m_index m')
     (exec_all 0 (''[12:10] - see [1:02]'' @ [NL] @ ''[1:75] - late '')) \<and>
   spec_timestamp_line (drop 0 (''[12:10] - see [1:02]'' @ [NL] @ ''[1:75] - late ''))
     ''12'' ''10'' (Some ''see [1:02]'') (''[12:10] - see [1:02]'' @ [NL]) \<and>
   spec_timestamp_line (drop 14 (''[12:10] - see [1:02]'' @ [NL] @ ''[1:75] - late ''))
     ''1'' ''02'' None (''[1:02]'' @ [NL]) \<and>
   spec_timestamp_line (drop 21 (''[12:10] - see [1:02]'' @ [NL] @ ''[1:75] - late ''))
     ''1'' ''75'' (Some ''late '') ''[1:75] - late '' \<and>
   \<lparr>m_index = 21, m_full = ''[1:75] - late '', m_minutes = ''1'', m_seconds = ''75'',
     m_desc = Some ''late ''\<rparr>
     \<in> set (exec_all 0 (''[12:10] - see [1:02]'' @ [NL] @ ''[1:75] - late '')) \<and>
   CHR ''['' \<notin> set ''See '' \<and>
   timestamps (parse_answer (''See '' @ ''[1:75] - late  '' @ [NL] @ ''x [3:00]''))
     = [\<lparr>time = 135, timestamp = ''01:75'', description = ''late''\<rparr>,
        \<lparr>time = 180, timestamp = ''03:00'', description = []\<rparr>]"
proof -
  let ?raw = "''[12:10] - see [1:02]'' @ [NL] @ ''[1:75] - late ''"
  let ?ma = "\<lparr>m_index = 0, m_full = ''[12:10] - see [1:02]'' @ [NL], m_minutes = ''12'',
              m_seconds = ''10'', m_desc = Some ''see [1:02]''\<rparr>"
  let ?mb = "\<lparr>m_index = 21, m_full = ''[1:75] - late '', m_minutes = ''1'', m_seconds = ''75'',
              m_desc = Some ''late ''\<rparr>"
  let ?s = "''[1:75] - late  '' @ [NL] @ ''x [3:00]''"
  note inst = parser_citations_in_text_order [where raw = ?raw and j = 21 and md = "''1''"
      and sd = "''75''" and desc = "Some ''late ''" and full = "''[1:75] - late ''"
      and pre = "''See ''" and s = ?s]
  note insts = parser_citations_in_text_order [where raw = ?raw and j = 21 and md = "''1''"
      and sd = "''75''" and desc = "Some ''late  ''" and full = "''[1:75] - late  '' @ [NL]"
      and pre = "''See ''" and s = ?s]
  note c1 = inst [THEN conjunct1]
  note c2 = inst [THEN conjunct2, THEN conjunct1]
  note c3 = inst [THEN conjunct2, THEN conjunct2, THEN conjunct1, rule_format]
  note c4 = inst [THEN conjunct2, THEN conjunct2, THEN conjunct2, THEN conjunct1, rule_format]
  note c5 = insts [THEN conjunct2, THEN conjunct2, THEN conjunct2, THEN conjunct2, rule_format]
  have ex: "exec_all 0 ?raw = [?ma, ?mb]"
    by code_simp
  have ix: "map m_index (exec_all 0 ?raw) = [0, 21]"
    unfolding ex by simp
  have cits: "map (\<lambda>m. spec_citation (m_minutes m) (m_seconds m) (m_desc m)) [?ma, ?mb]
     = [\<lparr>time = 730, timestamp = ''12:10'', description = ''see [1:02]''\<rparr>,
        \<lparr>time = 135, timestamp = ''01:75'', description = ''late''\<rparr>]"
    by code_simp
  have w1: "timestamps (parse_answer ?raw)
     = [\<lparr>time = 730, timestamp = ''12:10'', description = ''see [1:02]''\<rparr>,
        \<lparr>time = 135, timestamp = ''01:75'', description = ''late''\<rparr>]"
    using c1 unfolding ex cits .
  have ma: "?ma \<in> set (exec_all 0 ?raw)" and mb: "?mb \<in> set (exec_all 0 ?raw)"
    unfolding ex by simp_all
  have la: "spec_timestamp_line (drop 0 ?raw) ''12'' ''10'' (Some ''see [1:02]'')
              (''[12:10] - see [1:02]'' @ [NL])"
    using c3 [OF ma, THEN conjunct2] by simp
  have lb: "spec_timestamp_line (drop 21 ?raw) ''1'' ''75'' (Some ''late '') ''[1:75] - late ''"
    using c3 [OF mb, THEN conjunct2] by simp
  have inner: "spec_timestamp_line (drop 14 ?raw) ''1'' ''02'' None (''[1:02]'' @ [NL])"
    by code_simp
  have "?mb \<in> set (exec_all 0 ?raw) \<or>
        (\<exists>m \<in> set (exec_all 0 ?raw). m_index m < 21 \<and> 21 < m_index m + length (m_full m))"
    using lb by (rule c4)
  moreover have "\<not> (\<exists>m \<in> set (exec_all 0 ?raw). m_index m < 21 \<and> 21 < m_index m + length (m_full m))"
    unfolding ex by simp
  ultimately have w4: "?mb \<in> set (exec_all 0 ?raw)" by blast
  have nb: "CHR ''['' \<notin> set ''See ''" by simp
  have ls: "spec_timestamp_line ?s ''1'' ''75'' (Some ''late  '') (''[1:75] - late  '' @ [NL])"
    by code_simp
  have rest: "timestamps (parse_answer (drop (length (''[1:75] - late  '' @ [NL])) ?s))
      = [\<lparr>time = 180, timestamp = ''03:00'', description = []\<rparr>]"
    by code_simp
  have sc: "spec_citation ''1'' ''75'' (Some ''late  '')
      = \<lparr>time = 135, timestamp = ''01:75'', description = ''late''\<rparr>"
    by code_simp
  have w5: "timestamps (parse_answer (''See '' @ ?s))
     = [\<lparr>time = 135, timestamp = ''01:75'', description = ''late''\<rparr>,
        \<lparr>time = 180, timestamp = ''03:00'', description = []\<rparr>]"
    using c5 [OF conjI [OF nb ls]] unfolding rest sc .
  from w1 ix c2 la inner lb w4 nb w5 show ?thesis by (intro conjI)
qed

section \<open>Properties of the Player Bridge\<close>





















text \<open>
  A readiness test that throws during the drain leaves the loop and the handler: with three
  seek times queued and \<open>window.ytplayer\<close> gone at the test of the second command, the
  first command has run, the second has been taken off the queue, the third stays queued,
  the gate is true and no timer is pending.
\<close>

lemma drain_left_by_exception:
  "bridge_run [SeekEvent stalled_player 10, SeekEvent stalled_player 20, SeekEvent stalled_player 30,
               TimerFires (Object playing_player) [Object playing_player, Undefined]]
       \<lparr>playerReady = False, commandQueue = [], timer = Some 200, listening = True,
        native_calls = []\<rparr>
     = \<lparr>playerReady = True, commandQueue = [30], timer = None, listening = True,
        native_calls = [SeekTo 10, PlayVideo]\<rparr>"
  by code_simp




text \<open>
  Claim C2. The polling loop does not survive a missing player. When \<open>window.ytplayer\<close> is
  \<open>undefined\<close> as the script starts, \<open>isYouTubePlayerAPIReady\<close> throws a \<open>TypeError\<close>, the
  script ends with no timer set and no listener registered. When it is \<open>undefined\<close> at a
  later poll, the exception leaves \<open>ensurePlayerAndProcessQueue\<close> before \<open>setTimeout\<close>: no
  timer is pending any more, the two queued seek times stay in the queue, and no later
  readiness of the player brings a call. Moreover, once \<open>playerReady\<close> is true a timer event
  does not evaluate the readiness test at all (with \<open>undefined\<close> it would throw); it only
  sets the next timer of 200 ms.
\<close>

theorem polling_stops_on_missing_player:
  "start_script Undefined =
     (Some TypeError, \<lparr>playerReady = False, commandQueue = [], timer = None, listening = False,
                       native_calls = []\<rparr>) \<and>
   start_script stalled_player =
     (None, \<lparr>playerReady = False, commandQueue = [], timer = Some 200, listening = True,
             native_calls = []\<rparr>) \<and>
   bridge_run [SeekEvent stalled_player 10, SeekEvent stalled_player 20, TimerFires Undefined []]
       \<lparr>playerReady = False, commandQueue = [], timer = Some 200, listening = True,
        native_calls = []\<rparr>
     = \<lparr>playerReady = False, commandQueue = [10, 20], timer = None, listening = True,
        native_calls = []\<rparr> \<and>
   bridge_run [TimerFires (Object playing_player) [], TimerFires (Object playing_player) []]
       \<lparr>playerReady = False, commandQueue = [10, 20], timer = None, listening = True,
        native_calls = []\<rparr>
     = \<lparr>playerReady = False, commandQueue = [10, 20], timer = None, listening = True,
        native_calls = []\<rparr> \<and>
   timer_fires Undefined []
       \<lparr>playerReady = True, commandQueue = [], timer = Some 200, listening = True,
        native_calls = []\<rparr>
     = (None, \<lparr>playerReady = True, commandQueue = [], timer = Some 200, listening = True,
               native_calls = []\<rparr>)"
  by code_simp


section \<open>Properties of the delivery with retry\<close>

lemma connection_error_nonempty: "is_connection_error m \<Longrightarrow> m \<noteq> []"
  by (auto simp: is_connection_error_def)

lemma round_connection_failure:
  "connection_failure outcome \<Longrightarrow> i < retries \<Longrightarrow> round outcome retries i = Retry"
  by (cases outcome rule: connection_failure.cases)
     (simp_all add: round_def try_block_def is_connection_error_def)

lemma sendLoop_Retry:
  "i \<le> retries \<Longrightarrow> round (env i) retries i = Retry \<Longrightarrow>
     sendLoop env tabId msg retries delay i =
       (fst (sendLoop env tabId msg retries delay (i + 1)),
        [SendMessage tabId msg, Wait delay] @ snd (sendLoop env tabId msg retries delay (i + 1)))"
  by (simp add: sendLoop.simps [of env tabId msg retries delay i] split: prod.splits)

lemma sendLoop_Return:
  "i \<le> retries \<Longrightarrow> round (env i) retries i = Return response \<Longrightarrow>
     sendLoop env tabId msg retries delay i = (Inr response, [SendMessage tabId msg])"
  by (simp add: sendLoop.simps [of env tabId msg retries delay i])

lemma sendLoop_Fail:
  "i \<le> retries \<Longrightarrow> round (env i) retries i = Fail m \<Longrightarrow>
     sendLoop env tabId msg retries delay i = (Inl m, [SendMessage tabId msg])"
  by (simp add: sendLoop.simps [of env tabId msg retries delay i])

lemma sendLoop_skip:
  "i + k \<le> retries \<Longrightarrow> (\<forall>j. i \<le> j \<and> j < i + k \<longrightarrow> connection_failure (env j)) \<Longrightarrow>
     sendLoop env tabId msg retries delay i =
       (fst (sendLoop env tabId msg retries delay (i + k)),
        concat (replicate k [SendMessage tabId msg, Wait delay])
          @ snd (sendLoop env tabId msg retries delay (i + k)))"
proof (induction k arbitrary: i)
  case 0
  then show ?case by simp
next
  case (Suc k)
  from Suc.prems have lt: "i < retries" and cf: "connection_failure (env i)" by auto
  from round_connection_failure [OF cf lt] have r: "round (env i) retries i = Retry" .
  from Suc.prems have "i + 1 + k \<le> retries"
    and "\<forall>j. i + 1 \<le> j \<and> j < i + 1 + k \<longrightarrow> connection_failure (env j)" by auto
  from Suc.IH [OF this]
  have ih: "sendLoop env tabId msg retries delay (i + 1) =
       (fst (sendLoop env tabId msg retries delay (i + Suc k)),
        concat (replicate k [SendMessage tabId msg, Wait delay])
          @ snd (sendLoop env tabId msg retries delay (i + Suc k)))"
    by simp
  from lt have "i \<le> retries" by simp
  from sendLoop_Retry [where env = env and i = i and retries = retries and tabId = tabId
      and msg = msg and delay = delay, OF this r] show ?case
    by (subst (asm) ih, subst (asm) ih) simp
qed

text \<open>
  Claim C4. When the first \<open>n\<close> calls fail with a connection-class failure, the next call
  succeeds and \<open>n\<close> is at most \<open>retries\<close>, then \<open>sendMessageWithRetry\<close> makes exactly \<open>n + 1\<close>
  calls, waits \<open>delay\<close> between consecutive calls and returns the response of the last
  call. When all \<open>retries + 1\<close> calls fail with a connection-class failure, it makes these
  \<open>retries + 1\<close> calls, with the waits between them, and throws an error whose message
  names the number of attempts and ends with the message of the last failure.
\<close>

theorem retry_until_delivered:
  "(n \<le> retries \<and> (\<forall>i<n. connection_failure (env i)) \<and> env n = Resolved response None \<longrightarrow>
      sendMessageWithRetry env tabId msg retries delay =
        (Inr response,
         concat (replicate n [SendMessage tabId msg, Wait delay]) @ [SendMessage tabId msg])) \<and>
   ((\<forall>i\<le>retries. connection_failure (env i)) \<longrightarrow>
      (\<exists>pre. (pre = [] \<or> pre = failure_text retries []) \<and>
         sendMessageWithRetry env tabId msg retries delay =
           (Inl (failure_text retries (pre @ last_error_message (env retries))),
            concat (replicate retries [SendMessage tabId msg, Wait delay]) @ [SendMessage tabId msg])))"
proof (intro conjI impI)
  assume a: "n \<le> retries \<and> (\<forall>i<n. connection_failure (env i)) \<and> env n = Resolved response None"
  then have "round (env n) retries n = Return response"
    by (simp add: round_def try_block_def)
  with a have last: "sendLoop env tabId msg retries delay n = (Inr response, [SendMessage tabId msg])"
    by (simp add: sendLoop_Return)
  from a have "0 + n \<le> retries" "\<forall>j. 0 \<le> j \<and> j < 0 + n \<longrightarrow> connection_failure (env j)" by auto
  from sendLoop_skip [OF this, of tabId msg delay] last
  show "sendMessageWithRetry env tabId msg retries delay =
        (Inr response,
         concat (replicate n [SendMessage tabId msg, Wait delay]) @ [SendMessage tabId msg])"
    by (simp add: sendMessageWithRetry_def)
next
  assume a: "\<forall>i\<le>retries. connection_failure (env i)"
  then have cf: "connection_failure (env retries)" by simp
  have "\<exists>pre. (pre = [] \<or> pre = failure_text retries []) \<and>
        round (env retries) retries retries = Fail (failure_text retries (pre @ last_error_message (env retries)))"
  proof (cases "env retries" rule: connection_failure.cases)
    case (1 m)
    then show ?thesis
      by (auto simp: round_def try_block_def last_error_message_def)
  next
    case (2 r m)
    with cf have "m \<noteq> []" by (simp add: connection_error_nonempty)
    with 2 show ?thesis
      by (auto simp: round_def try_block_def last_error_message_def failure_text_def)
  next
    case (3 r)
    with cf show ?thesis by simp
  qed
  then obtain pre where pre: "pre = [] \<or> pre = failure_text retries []"
    and r: "round (env retries) retries retries = Fail (failure_text retries (pre @ last_error_message (env retries)))"
    by blast
  from r have last: "sendLoop env tabId msg retries delay retries =
      (Inl (failure_text retries (pre @ last_error_message (env retries))), [SendMessage tabId msg])"
    by (simp add: sendLoop_Fail)
  from a have "0 + retries \<le> retries" "\<forall>j. 0 \<le> j \<and> j < 0 + retries \<longrightarrow> connection_failure (env j)" by auto
  from sendLoop_skip [OF this, of tabId msg delay] last
  have "sendMessageWithRetry env tabId msg retries delay =
           (Inl (failure_text retries (pre @ last_error_message (env retries))),
            concat (replicate retries [SendMessage tabId msg, Wait delay]) @ [SendMessage tabId msg])"
    by (simp add: sendMessageWithRetry_def)
  with pre show "\<exists>pre. (pre = [] \<or> pre = failure_text retries []) \<and>
         sendMessageWithRetry env tabId msg retries delay =
           (Inl (failure_text retries (pre @ last_error_message (env retries))),
            concat (replicate retries [SendMessage tabId msg, Wait delay]) @ [SendMessage tabId msg])"
    by blast
qed

text \<open>
  Claim C5, as stated, fails: the two ways of failing are not treated alike. A failure
  reported through \<open>lastError\<close> whose message is not a connection error is retried, while
  the same message thrown by \<open>sendMessage\<close> ends the delivery at once.
\<close>

theorem lastError_retried_whatever_it_says:
  "\<not> is_connection_error ''Tab was closed'' \<and>
   sendMessageWithRetry (outcomes [Resolved ''first'' (Some ''Tab was closed'')] (Resolved ''ok'' None))
       7 (ShowOverlay ''q'') 3 500
     = (Inr ''ok'', [SendMessage 7 (ShowOverlay ''q''), Wait 500, SendMessage 7 (ShowOverlay ''q'')]) \<and>
   sendMessageWithRetry (outcomes [Rejected ''Tab was closed''] (Resolved ''ok'' None))
       7 (ShowOverlay ''q'') 3 500
     = (Inl ''Failed to send message after 4 attempts: Tab was closed'',
        [SendMessage 7 (ShowOverlay ''q'')])"
  by code_simp

text \<open>
  Claim C5, amended. A round whose call reports \<open>lastError\<close> goes on to a retry exactly when
  a round is left, whatever the message; a round whose call throws goes on to a retry
  exactly when a round is left and the message contains \<open>Could not establish connection\<close>.
  In the run of the loop, a round is followed by a wait and a further call exactly when it
  decides to retry.
\<close>

theorem retry_classification:
  "(round (Resolved response (Some m)) retries i = Retry \<longleftrightarrow> i < retries) \<and>
   (round (Rejected m) retries i = Retry \<longleftrightarrow> i < retries \<and> is_connection_error m) \<and>
   (i \<le> retries \<longrightarrow>
      (1 < length (snd (sendLoop env tabId msg retries delay i)) \<longleftrightarrow> round (env i) retries i = Retry))"
proof (intro conjI impI)
  show "round (Resolved response (Some m)) retries i = Retry \<longleftrightarrow> i < retries"
    by (simp add: round_def try_block_def)
  show "round (Rejected m) retries i = Retry \<longleftrightarrow> i < retries \<and> is_connection_error m"
    by (simp add: round_def try_block_def is_connection_error_def)
  assume le: "i \<le> retries"
  show "1 < length (snd (sendLoop env tabId msg retries delay i)) \<longleftrightarrow> round (env i) retries i = Retry"
  proof (cases "round (env i) retries i")
    case (Return r)
    with le show ?thesis by (simp add: sendLoop_Return)
  next
    case Retry
    with le show ?thesis by (simp add: sendLoop_Retry)
  next
    case (Fail e)
    with le show ?thesis by (simp add: sendLoop_Fail)
  qed
qed

theorem retry_until_delivered_witness:
  "sendMessageWithRetry
       (outcomes [Rejected no_receiver, Resolved ''x'' (Some no_receiver)] (Resolved ''ok'' None))
       7 (ShowOverlay ''q'') 3 500
     = (Inr ''ok'', [SendMessage 7 (ShowOverlay ''q''), Wait 500,
                     SendMessage 7 (ShowOverlay ''q''), Wait 500,
                     SendMessage 7 (ShowOverlay ''q'')]) \<and>
   sendMessageWithRetry (outcomes [] (Rejected no_receiver :: unit send_outcome)) 7 (ShowOverlay ''q'') 1 750
     = (Inl (''Failed to send message after 2 attempts: '' @ no_receiver),
        [SendMessage 7 (ShowOverlay ''q''), Wait 750, SendMessage 7 (ShowOverlay ''q'')])"
proof -
  let ?env = "outcomes [Rejected no_receiver, Resolved ''x'' (Some no_receiver)] (Resolved ''ok'' None)"
  let ?env2 = "outcomes [] (Rejected no_receiver :: unit send_outcome)"
  have ce: "is_connection_error no_receiver" by code_simp
  have h1: "(2::nat) \<le> 3 \<and> (\<forall>i<2. connection_failure (?env i)) \<and> ?env 2 = Resolved ''ok'' None"
    using ce by (auto simp: outcomes_def less_Suc_eq numeral_2_eq_2)
  have h2: "\<forall>i\<le>1. connection_failure (?env2 i)"
    using ce by (simp add: outcomes_def)
  note inst1 = retry_until_delivered [where env = ?env and n = 2 and retries = 3
      and response = "''ok''" and tabId = 7 and msg = "ShowOverlay ''q''" and delay = 500]
  from inst1 h1 have a: "sendMessageWithRetry ?env 7 (ShowOverlay ''q'') 3 500 =
        (Inr ''ok'',
         concat (replicate 2 [SendMessage 7 (ShowOverlay ''q''), Wait 500]) @ [SendMessage 7 (ShowOverlay ''q'')])"
    by blast
  note inst2 = retry_until_delivered [where env = ?env2 and retries = 1
      and tabId = 7 and msg = "ShowOverlay ''q''" and delay = 750]
  from inst2 h2 obtain pre where pre: "pre = [] \<or> pre = failure_text 1 []"
    and b: "sendMessageWithRetry ?env2 7 (ShowOverlay ''q'') 1 750 =
           (Inl (failure_text 1 (pre @ last_error_message (?env2 1))),
            concat (replicate 1 [SendMessage 7 (ShowOverlay ''q''), Wait 750]) @ [SendMessage 7 (ShowOverlay ''q'')])"
    by blast
  have c: "sendMessageWithRetry ?env2 7 (ShowOverlay ''q'') 1 750
     = (Inl (''Failed to send message after 2 attempts: '' @ no_receiver),
        [SendMessage 7 (ShowOverlay ''q''), Wait 750, SendMessage 7 (ShowOverlay ''q'')])"
    by code_simp
  from a c show ?thesis by (simp add: numeral_2_eq_2)
qed

theorem retry_classification_witness:
  "round (outcomes [Resolved ''first'' (Some ''Tab was closed'')] (Resolved ''ok'' None) 0) 3 0 = Retry \<and>
   (0::nat) \<le> 3 \<and>
   1 < length (snd (sendLoop (outcomes [Resolved ''first'' (Some ''Tab was closed'')] (Resolved ''ok'' None))
                      7 (ShowOverlay ''q'') 3 500 0))"
proof -
  let ?env = "outcomes [Resolved ''first'' (Some ''Tab was closed'')] (Resolved ''ok'' None)"
  note inst = retry_classification [where response = "''first''" and m = "''Tab was closed''"
      and retries = 3 and i = 0 and env = ?env and tabId = 7 and msg = "ShowOverlay ''q''" and delay = 500]
  have e: "?env 0 = Resolved ''first'' (Some ''Tab was closed'')" by (simp add: outcomes_def)
  from inst have "(round (Resolved ''first'' (Some ''Tab was closed'')) 3 0 = Retry) = ((0::nat) < 3)"
    by blast
  then have "round (Resolved ''first'' (Some ''Tab was closed'')) 3 0 = Retry" by simp
  with e have r: "round (?env 0) 3 0 = Retry" by simp
  from inst have "(0::nat) \<le> 3 \<longrightarrow>
      (1 < length (snd (sendLoop ?env 7 (ShowOverlay ''q'') 3 500 0)) \<longleftrightarrow> round (?env 0) 3 0 = Retry)"
    by blast
  with r show ?thesis by simp
qed


section \<open>Properties of the Session Coordinator\<close>

lemma no_tab_effect_in_ask_finally: "\<not> (\<exists>e \<in> set (ask_finally env). reaches_tab e)"
  by (simp add: ask_finally_def)

text \<open>
  Claim C7. Let \<open>question\<close> be the trimmed input. When its length is between 1 and 200 and
  it is not the placeholder text, the validation passes: \<open>askQuestion\<close> goes on to disable
  the button, to announce that the chat is being prepared and to query the active tab,
  and on a watch page whose content script is ready it sends \<open>showOverlay\<close> with the
  question. When its length is 0 or more than 200, or it is the placeholder text,
  \<open>askQuestion\<close> shows one error message (which \<open>displayMessage\<close> hides after five seconds)
  and does nothing else; in particular nothing reaches a tab.
\<close>

theorem question_validation:
  "(1 \<le> length (trim input) \<and> length (trim input) \<le> 200 \<and> trim input \<noteq> defaultText \<longrightarrow>
      take 4 (askQuestion input env) =
        [ButtonDisabled True, ButtonText ''Opening AI Chat...'',
         DisplayMessage ''Ensuring AI chat is ready...'' ''info'', QueryActiveTab] \<and>
      (\<forall>tabId url. active_tab env = Some (tabId, url) \<and> js_includes url ''youtube.com/watch'' \<and>
           ensure_error env = None \<longrightarrow>
         SendWithRetry tabId (ShowOverlay (trim input)) 5 750 \<in> set (askQuestion input env))) \<and>
   (length (trim input) = 0 \<or> length (trim input) > 200 \<or> trim input = defaultText \<longrightarrow>
      (\<exists>m. askQuestion input env = [DisplayMessage m ''error'']) \<and>
      \<not> (\<exists>e \<in> set (askQuestion input env). reaches_tab e))"
proof (intro conjI impI allI)
  assume a: "1 \<le> length (trim input) \<and> length (trim input) \<le> 200 \<and> trim input \<noteq> defaultText"
  then have ne: "trim input \<noteq> []" by auto
  with a show "take 4 (askQuestion input env) =
        [ButtonDisabled True, ButtonText ''Opening AI Chat...'',
         DisplayMessage ''Ensuring AI chat is ready...'' ''info'', QueryActiveTab]"
    by (simp add: askQuestion_def Let_def ask_try_def)
  fix tabId url
  assume b: "active_tab env = Some (tabId, url) \<and> js_includes url ''youtube.com/watch'' \<and>
           ensure_error env = None"
  with a ne show "SendWithRetry tabId (ShowOverlay (trim input)) 5 750 \<in> set (askQuestion input env)"
    by (simp add: askQuestion_def Let_def ask_try_def)
next
  assume a: "length (trim input) = 0 \<or> length (trim input) > 200 \<or> trim input = defaultText"
  then show "\<exists>m. askQuestion input env = [DisplayMessage m ''error'']"
    by (auto simp: askQuestion_def Let_def)
  from a show "\<not> (\<exists>e \<in> set (askQuestion input env). reaches_tab e)"
    by (auto simp: askQuestion_def Let_def)
qed

theorem question_validation_witness:
  "trim ''  What is said about cats?  '' = ''What is said about cats?'' \<and>
   SendWithRetry 7 (ShowOverlay ''What is said about cats?'') 5 750
     \<in> set (askQuestion ''  What is said about cats?  '' watch_page_env) \<and>
   trim ''   '' = [] \<and>
   \<not> (\<exists>e \<in> set (askQuestion ''   '' watch_page_env). reaches_tab e)"
proof -
  have t1: "trim ''  What is said about cats?  '' = ''What is said about cats?''"
    by code_simp
  have t2: "trim ''   '' = []" by code_simp
  have h1: "1 \<le> length (trim ''  What is said about cats?  '') \<and>
            length (trim ''  What is said about cats?  '') \<le> 200 \<and>
            trim ''  What is said about cats?  '' \<noteq> defaultText"
    unfolding t1 by (simp add: defaultText_def)
  have h2: "active_tab watch_page_env = Some (7, ''https://www.youtube.com/watch?v=abc'') \<and>
            js_includes ''https://www.youtube.com/watch?v=abc'' ''youtube.com/watch'' \<and>
            ensure_error watch_page_env = None"
    by code_simp
  from question_validation [of "''  What is said about cats?  ''" watch_page_env] h1 h2
  have "SendWithRetry 7 (ShowOverlay (trim ''  What is said about cats?  '')) 5 750
     \<in> set (askQuestion ''  What is said about cats?  '' watch_page_env)"
    by blast
  then have a: "SendWithRetry 7 (ShowOverlay ''What is said about cats?'') 5 750
     \<in> set (askQuestion ''  What is said about cats?  '' watch_page_env)"
    unfolding t1 .
  have h3: "length (trim ''   '') = 0 \<or> length (trim ''   '') > 200 \<or> trim ''   '' = defaultText"
    unfolding t2 by simp
  from question_validation [of "''   ''" watch_page_env] h3
  have b: "\<not> (\<exists>e \<in> set (askQuestion ''   '' watch_page_env). reaches_tab e)"
    by blast
  from t1 a t2 b show ?thesis by blast
qed

text \<open>
  Claim C8. A request from a tab other than the active one is answered with the error
  payload, and a failure of the gateway with \<open>{success: false, error}\<close>. On success the
  reply is not \<open>{success, answer, timestamps}\<close>: the listener passes the whole result of
  \<open>callGeminiApi\<close> as \<open>answer\<close>, so the reply has a nested object under \<open>answer\<close> and no
  field \<open>timestamps\<close>, unlike the reply that the content script builds from the same result
  for \<open>updateOverlay\<close>. The listener, being \<open>async\<close>, returns a promise of \<open>true\<close> to Chrome,
  not \<open>true\<close>.
\<close>

theorem popup_reply_nests_the_gateway_result:
  "callGeminiApi (HttpOk (Some sample_answer)) =
     Inr \<lparr>answer = ''At the start.'',
          timestamps = [\<lparr>time = 5, timestamp = ''00:05'', description = ''start''\<rparr>]\<rparr> \<and>
   responses (processManualTranscript_listener (ProcessManualTranscript ''When?'' sample_video)
                (Some 7) (Some 7) (HttpOk (Some sample_answer))) =
     [JObj [(''success'', JBool True),
            (''answer'', JObj [(''answer'', JStr ''At the start.''),
                               (''timestamps'', JArr [JObj [(''time'', JNum 5),
                                                            (''timestamp'', JStr ''00:05''),
                                                            (''text'', JStr ''start'')]])])]] \<and>
   field ''timestamps'' (hd (responses (processManualTranscript_listener
       (ProcessManualTranscript ''When?'' sample_video) (Some 7) (Some 7) (HttpOk (Some sample_answer)))))
     = JUndefined \<and>
   overlay_success \<lparr>answer = ''At the start.'',
          timestamps = [\<lparr>time = 5, timestamp = ''00:05'', description = ''start''\<rparr>]\<rparr> =
     JObj [(''success'', JBool True), (''answer'', JStr ''At the start.''),
           (''timestamps'', JArr [JObj [(''time'', JNum 5), (''timestamp'', JStr ''00:05''),
                                        (''text'', JStr ''start'')]])] \<and>
   returned (processManualTranscript_listener (ProcessManualTranscript ''When?'' sample_video)
                (Some 7) (Some 7) (HttpOk (Some sample_answer))) = JPromise (JBool True) \<and>
   responses (processManualTranscript_listener (ProcessManualTranscript ''When?'' sample_video)
                (Some 8) (Some 7) (HttpOk (Some sample_answer))) =
     [JObj [(''success'', JBool False), (''error'', JStr ''Invalid tab context for AI processing.'')]] \<and>
   responses (processManualTranscript_listener (ProcessManualTranscript ''When?'' sample_video)
                (Some 7) (Some 7) (HttpFailure 500 ''oops'')) =
     [JObj [(''success'', JBool False), (''error'', JStr ''Gemini API request failed: 500 oops'')]]"
  by code_simp


section \<open>Properties of the readiness handshake\<close>

lemma settle_fields [simp]:
  "tab (settle n x) = tab x" "phase (settle n x) = phase x"
  "listener_on (settle n x) = listener_on x" "created_at (settle n x) = created_at x"
  "settled (settle n x) = (if settled x = Pending then n else settled x)"
  by (simp_all add: settle_def)

lemma remove_listener_fields [simp]:
  "tab (remove_listener x) = tab x" "phase (remove_listener x) = phase x"
  "listener_on (remove_listener x) = False" "created_at (remove_listener x) = created_at x"
  "settled (remove_listener x) = settled x"
  by (simp_all add: remove_listener_def)

lemma arm_timer_fields [simp]:
  "tab (arm_timer now x) = tab x" "phase (arm_timer now x) = TimerArmed (now + 15000)"
  "listener_on (arm_timer now x) = listener_on x" "created_at (arm_timer now x) = created_at x"
  "settled (arm_timer now x) = settled x"
  by (simp_all add: arm_timer_def)

lemma evolves_refl: "evolves x x"
  by (simp add: evolves_def)

lemma inv_evolve:
  assumes inv: "coordinator_inv s"
    and len: "length ss = length (sessions s)"
    and ev: "\<forall>q < length (sessions s). evolves (sessions s ! q) (ss ! q)"
  shows "coordinator_inv (s\<lparr>sessions := ss\<rparr>)"
proof -
  have e: "\<And>q. q < length (sessions s) \<Longrightarrow> evolves (sessions s ! q) (ss ! q)"
    using ev by blast
  from inv have i1: "\<And>t p. contentScriptReadyPromises s t = Some p \<Longrightarrow>
          p < length (sessions s) \<and> tab (sessions s ! p) = t \<and> phase (sessions s ! p) \<noteq> TimerDone"
    unfolding coordinator_inv_def by blast
  from inv have i2: "\<And>p. p < length (sessions s) \<Longrightarrow> phase (sessions s ! p) \<noteq> TimerDone \<Longrightarrow>
          contentScriptReadyPromises s (tab (sessions s ! p)) = Some p"
    unfolding coordinator_inv_def by blast
  from inv have i3: "\<And>p. p < length (sessions s) \<Longrightarrow> settled (sessions s ! p) = Pending \<Longrightarrow>
          listener_on (sessions s ! p) \<and> phase (sessions s ! p) \<noteq> TimerDone"
    unfolding coordinator_inv_def by blast
  from inv have i4: "\<And>p. p < length (sessions s) \<Longrightarrow> created_at (sessions s ! p) \<le> clock s \<and>
          (\<forall>due. phase (sessions s ! p) = TimerArmed due \<longrightarrow>
             created_at (sessions s ! p) + 15000 \<le> due)"
    unfolding coordinator_inv_def by blast
  from inv have i5: "distinct (actions s)"
    unfolding coordinator_inv_def by blast
  from inv have i6: "\<And>p t. InjectionStarted p t \<in> set (actions s) \<Longrightarrow>
          p < length (sessions s) \<and> phase (sessions s ! p) \<noteq> AwaitingPing \<and> t = tab (sessions s ! p)"
    unfolding coordinator_inv_def by blast
  from inv have i7: "\<And>p t. PingSent p t \<in> set (actions s) \<Longrightarrow> p < length (sessions s)"
    unfolding coordinator_inv_def by blast
  have g1: "\<forall>t p. contentScriptReadyPromises s t = Some p \<longrightarrow>
          p < length ss \<and> tab (ss ! p) = t \<and> phase (ss ! p) \<noteq> TimerDone"
  proof (intro allI impI)
    fix t p assume "contentScriptReadyPromises s t = Some p"
    from i1 [OF this] e [of p] len show "p < length ss \<and> tab (ss ! p) = t \<and> phase (ss ! p) \<noteq> TimerDone"
      by (simp add: evolves_def)
  qed
  have g2: "\<forall>p < length ss. phase (ss ! p) \<noteq> TimerDone \<longrightarrow>
          contentScriptReadyPromises s (tab (ss ! p)) = Some p"
  proof (intro allI impI)
    fix p assume "p < length ss" and nd: "phase (ss ! p) \<noteq> TimerDone"
    with len have p: "p < length (sessions s)" by simp
    from e [OF p] nd have "phase (sessions s ! p) \<noteq> TimerDone" "tab (ss ! p) = tab (sessions s ! p)"
      by (simp_all add: evolves_def)
    with i2 [OF p] show "contentScriptReadyPromises s (tab (ss ! p)) = Some p" by simp
  qed
  have g3: "\<forall>p < length ss. settled (ss ! p) = Pending \<longrightarrow>
          listener_on (ss ! p) \<and> phase (ss ! p) \<noteq> TimerDone"
  proof (intro allI impI)
    fix p assume "p < length ss" and pe: "settled (ss ! p) = Pending"
    with len have p: "p < length (sessions s)" by simp
    from e [OF p] pe have a: "settled (sessions s ! p) = Pending"
      and b: "listener_on (sessions s ! p) \<longrightarrow> listener_on (ss ! p)"
      and c: "phase (ss ! p) = TimerDone \<longleftrightarrow> phase (sessions s ! p) = TimerDone"
      by (simp_all add: evolves_def)
    from i3 [OF p a] b c show "listener_on (ss ! p) \<and> phase (ss ! p) \<noteq> TimerDone" by simp
  qed
  have g4: "\<forall>p < length ss. created_at (ss ! p) \<le> clock s \<and>
          (\<forall>due. phase (ss ! p) = TimerArmed due \<longrightarrow> created_at (ss ! p) + 15000 \<le> due)"
  proof (intro allI impI)
    fix p assume "p < length ss"
    with len have p: "p < length (sessions s)" by simp
    from e [OF p] have a: "created_at (ss ! p) = created_at (sessions s ! p)"
      and b: "\<forall>due. phase (ss ! p) = TimerArmed due \<longrightarrow>
                 phase (sessions s ! p) = TimerArmed due \<or> created_at (sessions s ! p) + 15000 \<le> due"
      by (simp_all add: evolves_def)
    from i4 [OF p] a b show "created_at (ss ! p) \<le> clock s \<and>
          (\<forall>due. phase (ss ! p) = TimerArmed due \<longrightarrow> created_at (ss ! p) + 15000 \<le> due)"
      by auto
  qed
  have g6: "\<forall>p t. InjectionStarted p t \<in> set (actions s) \<longrightarrow>
          p < length ss \<and> phase (ss ! p) \<noteq> AwaitingPing \<and> t = tab (ss ! p)"
  proof (intro allI impI)
    fix p t assume "InjectionStarted p t \<in> set (actions s)"
    from i6 [OF this] e [of p] len
    show "p < length ss \<and> phase (ss ! p) \<noteq> AwaitingPing \<and> t = tab (ss ! p)"
      by (auto simp: evolves_def)
  qed
  have g7: "\<forall>p t. PingSent p t \<in> set (actions s) \<longrightarrow> p < length ss"
    using i7 len by auto
  from g1 g2 g3 g4 i5 g6 g7 show ?thesis
    unfolding coordinator_inv_def by simp
qed

lemma inv_update_session:
  assumes inv: "coordinator_inv s" and p: "p < length (sessions s)"
    and ev: "evolves (sessions s ! p) (f (sessions s ! p))"
  shows "coordinator_inv (update_session p f s)"
proof -
  have "\<forall>q < length (sessions s).
          evolves (sessions s ! q) ((sessions s)[p := f (sessions s ! p)] ! q)"
    using ev p by (simp add: nth_list_update evolves_refl)
  from inv_evolve [OF inv _ this] show ?thesis
    by (simp add: update_session_def)
qed

lemma inv_created: "coordinator_inv s \<Longrightarrow> p < length (sessions s) \<Longrightarrow> created_at (sessions s ! p) \<le> clock s"
  unfolding coordinator_inv_def by blast

lemma inv_ping_answered: "coordinator_inv s \<Longrightarrow> coordinator_inv (ping_answered p s)"
proof (cases "p < length (sessions s) \<and> phase (sessions s ! p) = AwaitingPing")
  case False
  assume "coordinator_inv s"
  with False show ?thesis by (auto simp: ping_answered_def)
next
  case True
  assume inv: "coordinator_inv s"
  from True inv_created [OF inv, of p]
  have "evolves (sessions s ! p) ((arm_timer (clock s) \<circ> settle Fulfilled \<circ> remove_listener) (sessions s ! p))"
    by (simp add: evolves_def)
  with inv True have "coordinator_inv (update_session p
          (arm_timer (clock s) \<circ> settle Fulfilled \<circ> remove_listener) s)"
    by (intro inv_update_session) auto
  with True show ?thesis
    by (simp add: ping_answered_def)
qed

lemma inv_injection_done: "coordinator_inv s \<Longrightarrow> coordinator_inv (injection_done p s)"
proof (cases "p < length (sessions s) \<and> phase (sessions s ! p) = AwaitingInjection")
  case False
  assume "coordinator_inv s"
  with False show ?thesis by (auto simp: injection_done_def)
next
  case True
  assume inv: "coordinator_inv s"
  from True inv_created [OF inv, of p]
  have "evolves (sessions s ! p) (arm_timer (clock s) (sessions s ! p))"
    by (simp add: evolves_def)
  with inv True have "coordinator_inv (update_session p (arm_timer (clock s)) s)"
    by (intro inv_update_session) auto
  with True show ?thesis
    by (simp add: injection_done_def)
qed

lemma inv_injection_failed: "coordinator_inv s \<Longrightarrow> coordinator_inv (injection_failed p m s)"
proof (cases "p < length (sessions s) \<and> phase (sessions s ! p) = AwaitingInjection")
  case False
  assume "coordinator_inv s"
  with False show ?thesis by (auto simp: injection_failed_def)
next
  case True
  assume inv: "coordinator_inv s"
  from True inv_created [OF inv, of p]
  have "evolves (sessions s ! p)
          ((arm_timer (clock s) \<circ> settle (RejectedWith (''Failed to inject QTube_content.js: '' @ m))
             \<circ> remove_listener) (sessions s ! p))"
    by (simp add: evolves_def)
  with inv True have "coordinator_inv (update_session p
          (arm_timer (clock s) \<circ> settle (RejectedWith (''Failed to inject QTube_content.js: '' @ m))
             \<circ> remove_listener) s)"
    by (intro inv_update_session) auto
  with True show ?thesis
    by (simp add: injection_failed_def)
qed

lemma inv_ready_message: "coordinator_inv s \<Longrightarrow> coordinator_inv (ready_message t s)"
proof -
  assume inv: "coordinator_inv s"
  let ?f = "\<lambda>x. if listener_on x \<and> tab x = t then settle Fulfilled (remove_listener x) else x"
  have "\<forall>q < length (sessions s). evolves (sessions s ! q) (map ?f (sessions s) ! q)"
    by (simp add: evolves_def)
  from inv_evolve [OF inv _ this] show ?thesis
    by (simp add: ready_message_def)
qed

lemma invD_map:
  "coordinator_inv s \<Longrightarrow> contentScriptReadyPromises s t = Some p \<Longrightarrow>
     p < length (sessions s) \<and> tab (sessions s ! p) = t \<and> phase (sessions s ! p) \<noteq> TimerDone"
  unfolding coordinator_inv_def by blast

lemma invD_live:
  "coordinator_inv s \<Longrightarrow> p < length (sessions s) \<Longrightarrow> phase (sessions s ! p) \<noteq> TimerDone \<Longrightarrow>
     contentScriptReadyPromises s (tab (sessions s ! p)) = Some p"
  unfolding coordinator_inv_def by blast

lemma invD_pending:
  "coordinator_inv s \<Longrightarrow> p < length (sessions s) \<Longrightarrow> settled (sessions s ! p) = Pending \<Longrightarrow>
     listener_on (sessions s ! p) \<and> phase (sessions s ! p) \<noteq> TimerDone"
  unfolding coordinator_inv_def by blast

lemma invD_time:
  "coordinator_inv s \<Longrightarrow> p < length (sessions s) \<Longrightarrow>
     created_at (sessions s ! p) \<le> clock s \<and>
     (\<forall>due. phase (sessions s ! p) = TimerArmed due \<longrightarrow> created_at (sessions s ! p) + 15000 \<le> due)"
  unfolding coordinator_inv_def by blast

lemma invD_distinct: "coordinator_inv s \<Longrightarrow> distinct (actions s)"
  unfolding coordinator_inv_def by blast

lemma invD_injection:
  "coordinator_inv s \<Longrightarrow> InjectionStarted p t \<in> set (actions s) \<Longrightarrow>
     p < length (sessions s) \<and> phase (sessions s ! p) \<noteq> AwaitingPing \<and> t = tab (sessions s ! p)"
  unfolding coordinator_inv_def by blast

lemma invD_ping:
  "coordinator_inv s \<Longrightarrow> PingSent p t \<in> set (actions s) \<Longrightarrow> p < length (sessions s)"
  unfolding coordinator_inv_def by blast

lemma invI:
  assumes "\<And>t p. contentScriptReadyPromises s t = Some p \<Longrightarrow>
             p < length (sessions s) \<and> tab (sessions s ! p) = t \<and> phase (sessions s ! p) \<noteq> TimerDone"
    and "\<And>p. p < length (sessions s) \<Longrightarrow> phase (sessions s ! p) \<noteq> TimerDone \<Longrightarrow>
             contentScriptReadyPromises s (tab (sessions s ! p)) = Some p"
    and "\<And>p. p < length (sessions s) \<Longrightarrow> settled (sessions s ! p) = Pending \<Longrightarrow>
             listener_on (sessions s ! p) \<and> phase (sessions s ! p) \<noteq> TimerDone"
    and "\<And>p. p < length (sessions s) \<Longrightarrow>
             created_at (sessions s ! p) \<le> clock s \<and>
             (\<forall>due. phase (sessions s ! p) = TimerArmed due \<longrightarrow> created_at (sessions s ! p) + 15000 \<le> due)"
    and "distinct (actions s)"
    and "\<And>p t. InjectionStarted p t \<in> set (actions s) \<Longrightarrow>
             p < length (sessions s) \<and> phase (sessions s ! p) \<noteq> AwaitingPing \<and> t = tab (sessions s ! p)"
    and "\<And>p t. PingSent p t \<in> set (actions s) \<Longrightarrow> p < length (sessions s)"
  shows "coordinator_inv s"
  unfolding coordinator_inv_def using assms by blast

lemma inv_add_injection:
  assumes inv: "coordinator_inv s" and p: "p < length (sessions s)"
    and ph: "phase (sessions s ! p) \<noteq> AwaitingPing"
    and new: "InjectionStarted p t \<notin> set (actions s)"
    and tb: "t = tab (sessions s ! p)"
  shows "coordinator_inv (s\<lparr>actions := actions s @ [InjectionStarted p t]\<rparr>)"
proof (rule invI)
  fix u q assume "contentScriptReadyPromises (s\<lparr>actions := actions s @ [InjectionStarted p t]\<rparr>) u = Some q"
  then have "contentScriptReadyPromises s u = Some q" by simp
  from invD_map [OF inv this]
  show "q < length (sessions (s\<lparr>actions := actions s @ [InjectionStarted p t]\<rparr>)) \<and>
        tab (sessions (s\<lparr>actions := actions s @ [InjectionStarted p t]\<rparr>) ! q) = u \<and>
        phase (sessions (s\<lparr>actions := actions s @ [InjectionStarted p t]\<rparr>) ! q) \<noteq> TimerDone"
    by simp
next
  fix q assume "q < length (sessions (s\<lparr>actions := actions s @ [InjectionStarted p t]\<rparr>))"
    and "phase (sessions (s\<lparr>actions := actions s @ [InjectionStarted p t]\<rparr>) ! q) \<noteq> TimerDone"
  then have "q < length (sessions s)" "phase (sessions s ! q) \<noteq> TimerDone" by simp_all
  from invD_live [OF inv this]
  show "contentScriptReadyPromises (s\<lparr>actions := actions s @ [InjectionStarted p t]\<rparr>)
          (tab (sessions (s\<lparr>actions := actions s @ [InjectionStarted p t]\<rparr>) ! q)) = Some q"
    by simp
next
  fix q assume "q < length (sessions (s\<lparr>actions := actions s @ [InjectionStarted p t]\<rparr>))"
    and "settled (sessions (s\<lparr>actions := actions s @ [InjectionStarted p t]\<rparr>) ! q) = Pending"
  then have "q < length (sessions s)" "settled (sessions s ! q) = Pending" by simp_all
  from invD_pending [OF inv this]
  show "listener_on (sessions (s\<lparr>actions := actions s @ [InjectionStarted p t]\<rparr>) ! q) \<and>
        phase (sessions (s\<lparr>actions := actions s @ [InjectionStarted p t]\<rparr>) ! q) \<noteq> TimerDone"
    by simp
next
  fix q assume "q < length (sessions (s\<lparr>actions := actions s @ [InjectionStarted p t]\<rparr>))"
  then have "q < length (sessions s)" by simp
  from invD_time [OF inv this]
  show "created_at (sessions (s\<lparr>actions := actions s @ [InjectionStarted p t]\<rparr>) ! q)
          \<le> clock (s\<lparr>actions := actions s @ [InjectionStarted p t]\<rparr>) \<and>
        (\<forall>due. phase (sessions (s\<lparr>actions := actions s @ [InjectionStarted p t]\<rparr>) ! q) = TimerArmed due \<longrightarrow>
           created_at (sessions (s\<lparr>actions := actions s @ [InjectionStarted p t]\<rparr>) ! q) + 15000 \<le> due)"
    by simp
next
  from invD_distinct [OF inv] new
  show "distinct (actions (s\<lparr>actions := actions s @ [InjectionStarted p t]\<rparr>))" by simp
next
  fix q u assume "InjectionStarted q u \<in> set (actions (s\<lparr>actions := actions s @ [InjectionStarted p t]\<rparr>))"
  then consider "InjectionStarted q u \<in> set (actions s)" | "q = p \<and> u = t" by auto
  then show "q < length (sessions (s\<lparr>actions := actions s @ [InjectionStarted p t]\<rparr>)) \<and>
        phase (sessions (s\<lparr>actions := actions s @ [InjectionStarted p t]\<rparr>) ! q) \<noteq> AwaitingPing \<and>
        u = tab (sessions (s\<lparr>actions := actions s @ [InjectionStarted p t]\<rparr>) ! q)"
  proof cases
    case 1
    from invD_injection [OF inv 1] show ?thesis by simp
  next
    case 2
    with p ph tb show ?thesis by simp
  qed
next
  fix q u assume "PingSent q u \<in> set (actions (s\<lparr>actions := actions s @ [InjectionStarted p t]\<rparr>))"
  then have "PingSent q u \<in> set (actions s)" by simp
  from invD_ping [OF inv this]
  show "q < length (sessions (s\<lparr>actions := actions s @ [InjectionStarted p t]\<rparr>))" by simp
qed

lemma inv_ping_failed: "coordinator_inv s \<Longrightarrow> coordinator_inv (ping_failed p s)"
proof (cases "p < length (sessions s) \<and> phase (sessions s ! p) = AwaitingPing")
  case False
  assume "coordinator_inv s"
  with False show ?thesis by (auto simp: ping_failed_def)
next
  case True
  assume inv: "coordinator_inv s"
  let ?s1 = "update_session p (\<lambda>x. x\<lparr>phase := AwaitingInjection\<rparr>) s"
  from True have "evolves (sessions s ! p) ((\<lambda>x. x\<lparr>phase := AwaitingInjection\<rparr>) (sessions s ! p))"
    by (simp add: evolves_def)
  with inv True have inv1: "coordinator_inv ?s1"
    by (intro inv_update_session) auto
  have "InjectionStarted p (tab (sessions s ! p)) \<notin> set (actions s)"
    using invD_injection [OF inv, of p "tab (sessions s ! p)"] True by auto
  then have new: "InjectionStarted p (tab (sessions s ! p)) \<notin> set (actions ?s1)"
    by (simp add: update_session_def)
  from True have p1: "p < length (sessions ?s1)" and ph1: "phase (sessions ?s1 ! p) \<noteq> AwaitingPing"
    by (simp_all add: update_session_def)
  from True have tb1: "tab (sessions s ! p) = tab (sessions ?s1 ! p)"
    by (simp add: update_session_def)
  from inv_add_injection [OF inv1 p1 ph1 new tb1] True show ?thesis
    by (simp add: ping_failed_def update_session_def)
qed

lemma inv_advance: "coordinator_inv s \<Longrightarrow> coordinator_inv (s\<lparr>clock := clock s + d\<rparr>)"
proof -
  assume inv: "coordinator_inv s"
  show ?thesis
  proof (rule invI, goal_cases)
    case (1 t p)
    then show ?case using invD_map [OF inv, of t p] by simp
  next
    case (2 p)
    then show ?case using invD_live [OF inv, of p] by simp
  next
    case (3 p)
    then show ?case using invD_pending [OF inv, of p] by simp
  next
    case (4 p)
    then show ?case using invD_time [OF inv, of p] by simp
  next
    case 5
    then show ?case using invD_distinct [OF inv] by simp
  next
    case (6 p t)
    then show ?case using invD_injection [OF inv, of p t] by simp
  next
    case (7 p t)
    then show ?case using invD_ping [OF inv, of p t] by simp
  qed
qed

lemma inv_timeout: "coordinator_inv s \<Longrightarrow> coordinator_inv (timeout p s)"
proof -
  assume inv: "coordinator_inv s"
  show ?thesis
  proof (cases "p < length (sessions s) \<and> (\<exists>due. phase (sessions s ! p) = TimerArmed due \<and> due \<le> clock s)")
    case False
    then have "timeout p s = s"
      by (auto simp: timeout_def split: executor_phase.splits)
    with inv show ?thesis by simp
  next
    case True
    then obtain due where p: "p < length (sessions s)"
      and ph: "phase (sessions s ! p) = TimerArmed due" and due: "due \<le> clock s" by blast
    let ?t = "tab (sessions s ! p)"
    let ?f = "(settle (RejectedWith (timeout_text ?t)) \<circ> remove_listener) \<circ> (\<lambda>x. x\<lparr>phase := TimerDone\<rparr>)"
    let ?ss = "(sessions s)[p := ?f (sessions s ! p)]"
    let ?s' = "s\<lparr>sessions := ?ss, contentScriptReadyPromises := (contentScriptReadyPromises s)(?t := None)\<rparr>"
    from ph have nd: "phase (sessions s ! p) \<noteq> TimerDone" by simp
    from invD_live [OF inv p nd] have m: "contentScriptReadyPromises s ?t = Some p" .
    have eq: "timeout p s = ?s'"
      using p ph due m by (simp add: timeout_def update_session_def Let_def)
    have nth_p: "?ss ! p = ?f (sessions s ! p)" using p by simp
    have nth_q: "\<And>q. q \<noteq> p \<Longrightarrow> ?ss ! q = sessions s ! q" by simp
    have fp: "tab (?f (sessions s ! p)) = ?t" "phase (?f (sessions s ! p)) = TimerDone"
      "settled (?f (sessions s ! p)) \<noteq> Pending"
      "created_at (?f (sessions s ! p)) = created_at (sessions s ! p)"
      by simp_all
    have "coordinator_inv ?s'"
    proof (rule invI, goal_cases)
      case (1 u q)
      then have u: "u \<noteq> ?t" and mq: "contentScriptReadyPromises s u = Some q"
        by (auto split: if_splits)
      from invD_map [OF inv mq] have q: "q < length (sessions s)" "tab (sessions s ! q) = u"
        "phase (sessions s ! q) \<noteq> TimerDone" by auto
      with u have "q \<noteq> p" by auto
      with q nth_q [OF this] show ?case by simp
    next
      case (2 q)
      then have ql: "q < length (sessions s)" and nd': "phase (?ss ! q) \<noteq> TimerDone" by simp_all
      from nd' nth_p fp(2) have qp: "q \<noteq> p" by auto
      with nd' nth_q have "phase (sessions s ! q) \<noteq> TimerDone" by simp
      from invD_live [OF inv ql this] have mq: "contentScriptReadyPromises s (tab (sessions s ! q)) = Some q" .
      with m qp have "tab (sessions s ! q) \<noteq> ?t" by auto
      with mq nth_q [OF qp] show ?case by simp
    next
      case (3 q)
      then have ql: "q < length (sessions s)" and pe: "settled (?ss ! q) = Pending" by simp_all
      from pe nth_p fp(3) have qp: "q \<noteq> p" by auto
      with pe nth_q have "settled (sessions s ! q) = Pending" by simp
      from invD_pending [OF inv ql this] nth_q [OF qp] show ?case by simp
    next
      case (4 q)
      then have ql: "q < length (sessions s)" by simp
      show ?case
      proof (cases "q = p")
        case True
        with invD_time [OF inv p] nth_p fp show ?thesis by simp
      next
        case False
        with invD_time [OF inv ql] nth_q [OF False] show ?thesis by simp
      qed
    next
      case 5
      then show ?case using invD_distinct [OF inv] by simp
    next
      case (6 q u)
      then have "InjectionStarted q u \<in> set (actions s)" by simp
      from invD_injection [OF inv this] have ql: "q < length (sessions s)"
        and np: "phase (sessions s ! q) \<noteq> AwaitingPing" and tq: "u = tab (sessions s ! q)" by auto
      show ?case
      proof (cases "q = p")
        case True
        with ql tq nth_p fp show ?thesis by simp
      next
        case False
        with ql np tq nth_q [OF False] show ?thesis by simp
      qed
    next
      case (7 q u)
      then show ?case using invD_ping [OF inv, of q u] by simp
    qed
    with eq show ?thesis by simp
  qed
qed

lemma inv_call: "coordinator_inv s \<Longrightarrow> coordinator_inv (snd (ensureContentScriptLoaded t s))"
proof (cases "contentScriptReadyPromises s t")
  case (Some p)
  assume "coordinator_inv s"
  with Some show ?thesis by (simp add: ensureContentScriptLoaded_def)
next
  case None
  assume inv: "coordinator_inv s"
  let ?n = "length (sessions s)"
  let ?new = "\<lparr>tab = t, settled = Pending, listener_on = True, phase = AwaitingPing, created_at = clock s\<rparr>"
  let ?ss = "sessions s @ [?new]"
  let ?s' = "s\<lparr>sessions := ?ss,
               contentScriptReadyPromises := (contentScriptReadyPromises s)(t \<mapsto> ?n),
               actions := actions s @ [PingSent ?n t]\<rparr>"
  have nth_old: "\<And>p. p < ?n \<Longrightarrow> ?ss ! p = sessions s ! p"
    by (simp add: nth_append)
  have nth_new: "?ss ! ?n = ?new"
    by simp
  have split: "\<And>p. p < length ?ss \<Longrightarrow> p \<noteq> ?n \<Longrightarrow> p < ?n"
    by simp
  have "coordinator_inv ?s'"
  proof (rule invI, goal_cases)
    case (1 u p)
    show ?case
    proof (cases "u = t")
      case True
      with 1 have "p = ?n" by simp
      with True nth_new show ?thesis by simp
    next
      case False
      with 1 have "contentScriptReadyPromises s u = Some p" by simp
      from invD_map [OF inv this] nth_old [of p] show ?thesis by simp
    qed
  next
    case (2 p)
    then have pl: "p < length ?ss" and nd: "phase (?ss ! p) \<noteq> TimerDone" by simp_all
    show ?case
    proof (cases "p = ?n")
      case True
      with nth_new show ?thesis by simp
    next
      case False
      from split [OF pl False] have p: "p < ?n" .
      from nd nth_old [OF p] have "phase (sessions s ! p) \<noteq> TimerDone" by simp
      from invD_live [OF inv p this] have m: "contentScriptReadyPromises s (tab (sessions s ! p)) = Some p" .
      with None have "tab (sessions s ! p) \<noteq> t" by auto
      with m nth_old [OF p] show ?thesis by simp
    qed
  next
    case (3 p)
    then have pl: "p < length ?ss" and pe: "settled (?ss ! p) = Pending" by simp_all
    show ?case
    proof (cases "p = ?n")
      case True
      with nth_new show ?thesis by simp
    next
      case False
      from split [OF pl False] have p: "p < ?n" .
      from pe nth_old [OF p] invD_pending [OF inv p] show ?thesis by simp
    qed
  next
    case (4 p)
    then have pl: "p < length ?ss" by simp
    show ?case
    proof (cases "p = ?n")
      case True
      with nth_new show ?thesis by simp
    next
      case False
      from split [OF pl False] have p: "p < ?n" .
      from nth_old [OF p] invD_time [OF inv p] show ?thesis by simp
    qed
  next
    case 5
    from invD_ping [OF inv, of ?n t] have "PingSent ?n t \<notin> set (actions s)" by auto
    with invD_distinct [OF inv] show ?case by simp
  next
    case (6 p u)
    then have "InjectionStarted p u \<in> set (actions s)" by simp
    from invD_injection [OF inv this] nth_old [of p] show ?case by simp
  next
    case (7 p u)
    then consider "PingSent p u \<in> set (actions s)" | "p = ?n" by auto
    then show ?case
    proof cases
      case 1
      from invD_ping [OF inv 1] show ?thesis by simp
    next
      case 2
      then show ?thesis by simp
    qed
  qed
  with None show ?thesis
    by (simp add: ensureContentScriptLoaded_def Let_def)
qed

lemma inv_step: "coordinator_inv s \<Longrightarrow> coordinator_inv (coordinator_step ev s)"
  by (cases ev)
     (simp_all add: inv_call inv_ping_answered inv_ping_failed inv_injection_done
        inv_injection_failed inv_ready_message inv_timeout inv_advance)

lemma inv_run: "coordinator_inv s \<Longrightarrow> coordinator_inv (coordinator_run evs s)"
  unfolding coordinator_run_def
  by (induction evs arbitrary: s) (simp_all add: inv_step)

lemma inv_init: "coordinator_inv coordinator_init"
  by (simp add: coordinator_inv_def coordinator_init_def)

lemma update_session_nth:
  "p < length (sessions s) \<Longrightarrow>
     sessions (update_session p f s) ! q = (if q = p then f (sessions s ! p) else sessions s ! q)"
  by (simp add: update_session_def)

lemma update_session_length [simp]: "length (sessions (update_session p f s)) = length (sessions s)"
  by (simp add: update_session_def)

lemma settled_update:
  assumes "q < length (sessions s)" "settled (sessions s ! q) \<noteq> Pending"
    and "\<And>x. settled x \<noteq> Pending \<Longrightarrow> settled (f x) = settled x"
  shows "settled (sessions (update_session p f s) ! q) = settled (sessions s ! q)"
  using assms by (cases "p = q") (simp_all add: update_session_def)

lemma settled_final:
  assumes q: "q < length (sessions s)" and np: "settled (sessions s ! q) \<noteq> Pending"
  shows "settled (sessions (coordinator_step ev s) ! q) = settled (sessions s ! q)"
proof (cases ev)
  case (Call t)
  with q show ?thesis
    by (simp add: ensureContentScriptLoaded_def Let_def nth_append split: option.splits)
next
  case (PingAnswered p)
  with q np show ?thesis by (simp add: ping_answered_def settled_update)
next
  case (PingFailed p)
  with q np show ?thesis by (simp add: ping_failed_def settled_update)
next
  case (InjectionDone p)
  with q np show ?thesis by (simp add: injection_done_def settled_update)
next
  case (InjectionFailed p m)
  with q np show ?thesis by (simp add: injection_failed_def settled_update)
next
  case (ReadyMessage t)
  with q np show ?thesis by (simp add: ready_message_def)
next
  case (Timeout p)
  show ?thesis
  proof (cases "p < length (sessions s) \<and> (\<exists>due. phase (sessions s ! p) = TimerArmed due \<and> due \<le> clock s)")
    case False
    then have "timeout p s = s"
      by (auto simp: timeout_def split: executor_phase.splits)
    with Timeout show ?thesis by simp
  next
    case True
    then obtain due where p: "p < length (sessions s)"
      and ph: "phase (sessions s ! p) = TimerArmed due" and due: "due \<le> clock s" by blast
    let ?s1 = "update_session p (\<lambda>x. x\<lparr>phase := TimerDone\<rparr>) s"
    have a: "settled (sessions ?s1 ! q) = settled (sessions s ! q)"
      using q np by (simp add: settled_update)
    have q1: "q < length (sessions ?s1)" using q by simp
    have b: "settled (sessions (update_session p
                (settle (RejectedWith (timeout_text (tab (sessions s ! p)))) \<circ> remove_listener) ?s1) ! q)
             = settled (sessions ?s1 ! q)"
      using q1 np a by (intro settled_update) simp_all
    from p ph due a b Timeout show ?thesis
      by (simp add: timeout_def Let_def)
  qed
next
  case (Advance d)
  then show ?thesis by simp
qed

lemma ready_resolves:
  assumes inv: "coordinator_inv s" and p: "p < length (sessions s)"
    and pe: "settled (sessions s ! p) = Pending"
  shows "settled (sessions (coordinator_step (ReadyMessage (tab (sessions s ! p))) s) ! p) = Fulfilled"
  using invD_pending [OF inv p pe] p pe by (simp add: ready_message_def)

lemma timeout_early:
  "phase (sessions s ! p) = TimerArmed due \<Longrightarrow> clock s < due \<Longrightarrow> coordinator_step (Timeout p) s = s"
  by (simp add: timeout_def)

lemma timeout_fires:
  assumes inv: "coordinator_inv s" and p: "p < length (sessions s)"
    and ph: "phase (sessions s ! p) = TimerArmed due" and due: "due \<le> clock s"
  shows "contentScriptReadyPromises s (tab (sessions s ! p)) = Some p"
    and "contentScriptReadyPromises (coordinator_step (Timeout p) s) (tab (sessions s ! p)) = None"
    and "settled (sessions s ! p) = Pending \<Longrightarrow>
           settled (sessions (coordinator_step (Timeout p) s) ! p)
             = RejectedWith (timeout_text (tab (sessions s ! p)))"
proof -
  from ph have "phase (sessions s ! p) \<noteq> TimerDone" by simp
  from invD_live [OF inv p this] show m: "contentScriptReadyPromises s (tab (sessions s ! p)) = Some p" .
  from p ph due m
  show "contentScriptReadyPromises (coordinator_step (Timeout p) s) (tab (sessions s ! p)) = None"
    by (simp add: timeout_def Let_def)
  assume "settled (sessions s ! p) = Pending"
  with p ph due m
  show "settled (sessions (coordinator_step (Timeout p) s) ! p)
             = RejectedWith (timeout_text (tab (sessions s ! p)))"
    by (simp add: timeout_def Let_def update_session_def)
qed

lemma filter_eq_absent: "x \<notin> set xs \<Longrightarrow> filter (\<lambda>a. a = x) xs = []"
  by (induction xs) auto

lemma distinct_filter_eq: "distinct xs \<Longrightarrow> length (filter (\<lambda>a. a = x) xs) \<le> 1"
  by (induction xs) (auto simp: filter_eq_absent)

lemma injections_bound:
  assumes inv: "coordinator_inv s"
  shows "injections_of p s \<le> 1"
proof -
  let ?P = "\<lambda>a. case a of InjectionStarted q t \<Rightarrow> q = p | PingSent q t \<Rightarrow> False"
  have "filter ?P (actions s) = filter (\<lambda>a. a = InjectionStarted p (tab (sessions s ! p))) (actions s)"
  proof (rule filter_cong [OF refl])
    fix a assume a: "a \<in> set (actions s)"
    show "?P a = (a = InjectionStarted p (tab (sessions s ! p)))"
    proof (cases a)
      case (PingSent q t)
      then show ?thesis by simp
    next
      case (InjectionStarted q t)
      with a invD_injection [OF inv, of q t] show ?thesis by auto
    qed
  qed
  moreover from invD_distinct [OF inv]
  have "length (filter (\<lambda>a. a = InjectionStarted p (tab (sessions s ! p))) (actions s)) \<le> 1"
    by (rule distinct_filter_eq)
  ultimately show ?thesis by (simp add: injections_of_def)
qed

lemmas coordinator_eval =
  coordinator_run_def coordinator_init_def ensureContentScriptLoaded_def ping_answered_def
  ping_failed_def injection_done_def injection_failed_def ready_message_def timeout_def
  update_session_def settle_def remove_listener_def arm_timer_def Let_def

lemma ping_failed_injects:
  assumes inv: "coordinator_inv s" and p: "p < length (sessions s)"
    and ph: "phase (sessions s ! p) = AwaitingPing"
  shows "injections_of p s = 0"
    and "actions (coordinator_step (PingFailed p) s) = actions s @ [InjectionStarted p (tab (sessions s ! p))]"
    and "injections_of p (coordinator_step (PingFailed p) s) = 1"
proof -
  have none: "\<And>a. a \<in> set (actions s) \<Longrightarrow>
      \<not> (case a of InjectionStarted q t \<Rightarrow> q = p | PingSent q t \<Rightarrow> False)"
  proof -
    fix a assume a: "a \<in> set (actions s)"
    show "\<not> (case a of InjectionStarted q t \<Rightarrow> q = p | PingSent q t \<Rightarrow> False)"
    proof (cases a)
      case (PingSent q t)
      then show ?thesis by simp
    next
      case (InjectionStarted q t)
      with a invD_injection [OF inv, of q t] ph show ?thesis by auto
    qed
  qed
  then have f: "filter (\<lambda>a. case a of InjectionStarted q t \<Rightarrow> q = p | PingSent q t \<Rightarrow> False) (actions s) = []"
    by (simp add: filter_empty_conv)
  then show "injections_of p s = 0" by (simp add: injections_of_def)
  from p ph show acts: "actions (coordinator_step (PingFailed p) s)
      = actions s @ [InjectionStarted p (tab (sessions s ! p))]"
    by (simp add: ping_failed_def)
  from f show "injections_of p (coordinator_step (PingFailed p) s) = 1"
    unfolding injections_of_def acts by simp
qed

lemma rejection_causes:
  assumes q: "q < length (sessions s)" and pe: "settled (sessions s ! q) = Pending"
    and rj: "settled (sessions (coordinator_step ev s) ! q) = RejectedWith m"
  shows "(ev = Timeout q \<and> m = timeout_text (tab (sessions s ! q))) \<or>
         (\<exists>e. ev = InjectionFailed q e \<and> m = injection_error e)"
proof (cases ev)
  case (Call t)
  with q pe rj show ?thesis
    by (simp add: ensureContentScriptLoaded_def Let_def nth_append split: option.splits)
next
  case (PingAnswered p)
  with q pe rj show ?thesis
    by (auto simp: ping_answered_def update_session_def nth_list_update split: if_splits)
next
  case (PingFailed p)
  with q pe rj show ?thesis
    by (auto simp: ping_failed_def update_session_def nth_list_update split: if_splits)
next
  case (InjectionDone p)
  with q pe rj show ?thesis
    by (auto simp: injection_done_def update_session_def nth_list_update split: if_splits)
next
  case (InjectionFailed p e)
  with q pe rj show ?thesis
    by (auto simp: injection_failed_def injection_error_def update_session_def nth_list_update
          split: if_splits)
next
  case (ReadyMessage t)
  with q pe rj show ?thesis
    by (auto simp: ready_message_def split: if_splits)
next
  case (Timeout p)
  show ?thesis
  proof (cases "p < length (sessions s) \<and> (\<exists>due. phase (sessions s ! p) = TimerArmed due \<and> due \<le> clock s)")
    case False
    then have "timeout p s = s"
      by (auto simp: timeout_def split: executor_phase.splits)
    with Timeout pe rj show ?thesis by simp
  next
    case True
    then obtain due where p: "p < length (sessions s)"
      and ph: "phase (sessions s ! p) = TimerArmed due" and due: "due \<le> clock s" by blast
    show ?thesis
    proof (cases "p = q")
      case True
      with p ph due Timeout pe rj show ?thesis
        by (auto simp: timeout_def Let_def update_session_def split: if_splits)
    next
      case False
      with p ph due Timeout pe rj q show ?thesis
        by (auto simp: timeout_def Let_def update_session_def split: if_splits)
    qed
  qed
next
  case (Advance d)
  with pe rj show ?thesis by simp
qed

lemma injection_failure_rejects:
  assumes "p < length (sessions s)" "phase (sessions s ! p) = AwaitingInjection"
    "settled (sessions s ! p) = Pending"
  shows "settled (sessions (coordinator_step (InjectionFailed p e) s) ! p) = RejectedWith (injection_error e)"
  using assms by (simp add: injection_failed_def update_session_def injection_error_def)

text \<open>
  Claim C6, as stated, fails in one point: a promise is not only resolved by a ready
  announcement or rejected after the timeout. When \<open>executeScript\<close> itself throws, the
  promise is rejected at once with the injection error; here this happens 55 ms after the
  call, with the timer of 15000 ms just set.
\<close>

theorem injection_failure_rejects_at_once:
  "settled (sessions (coordinator_run [Call 7, Advance 5, PingFailed 0, Advance 50, InjectionFailed 0 ''denied'']
                        coordinator_init) ! 0)
     = RejectedWith ''Failed to inject QTube_content.js: denied'' \<and>
   clock (coordinator_run [Call 7, Advance 5, PingFailed 0, Advance 50, InjectionFailed 0 ''denied'']
            coordinator_init) = 55 \<and>
   phase (sessions (coordinator_run [Call 7, Advance 5, PingFailed 0, Advance 50, InjectionFailed 0 ''denied'']
                      coordinator_init) ! 0) = TimerArmed 15055 \<and>
   actions (coordinator_run [Call 7, Advance 5, PingFailed 0, Advance 50, InjectionFailed 0 ''denied'']
              coordinator_init) = [PingSent 0 7, InjectionStarted 0 7]"
  by (simp add: coordinator_eval)

text \<open>
  Claim C6, amended. In every state that calls and events can reach from the start: a call
  of \<open>ensureContentScriptLoaded\<close> for a tab that has an entry returns the promise of that
  entry and changes nothing (no new promise, no ping, no injection); a pending promise is
  the entry of its tab, so a tab has at most one pending promise; \<open>executeScript\<close> is called
  at most once for a promise, and exactly once when its ping fails; a promise that is
  settled keeps its state under every event, so it is never both resolved and rejected; a
  pending promise is resolved by a ready announcement of its tab; a pending promise whose
  timer is set is left alone by the timer before the 15000 ms have passed and is rejected
  with the timeout error when the timer fires after them; a pending promise whose
  injection fails is rejected at once with the injection error; a pending promise is
  rejected by nothing else than its timer or the failure of its injection; and once its
  timer has fired a promise is settled.
\<close>

theorem one_handshake_per_tab:
  assumes "s = coordinator_run evs coordinator_init"
  shows
    "(\<forall>t p. contentScriptReadyPromises s t = Some p \<longrightarrow> ensureContentScriptLoaded t s = (p, s)) \<and>
     (\<forall>p < length (sessions s). settled (sessions s ! p) = Pending \<longrightarrow>
        contentScriptReadyPromises s (tab (sessions s ! p)) = Some p) \<and>
     (\<forall>p < length (sessions s). \<forall>q < length (sessions s).
        settled (sessions s ! p) = Pending \<and> settled (sessions s ! q) = Pending \<and>
        tab (sessions s ! p) = tab (sessions s ! q) \<longrightarrow> p = q) \<and>
     (\<forall>p. injections_of p s \<le> 1) \<and>
     (\<forall>p < length (sessions s). phase (sessions s ! p) = AwaitingPing \<longrightarrow>
        injections_of p s = 0 \<and>
        actions (coordinator_step (PingFailed p) s)
          = actions s @ [InjectionStarted p (tab (sessions s ! p))] \<and>
        injections_of p (coordinator_step (PingFailed p) s) = 1) \<and>
     (\<forall>p < length (sessions s). \<forall>ev. settled (sessions s ! p) \<noteq> Pending \<longrightarrow>
        settled (sessions (coordinator_step ev s) ! p) = settled (sessions s ! p)) \<and>
     (\<forall>p < length (sessions s). settled (sessions s ! p) = Pending \<longrightarrow>
        settled (sessions (coordinator_step (ReadyMessage (tab (sessions s ! p))) s) ! p) = Fulfilled) \<and>
     (\<forall>p < length (sessions s). \<forall>due.
        settled (sessions s ! p) = Pending \<and> phase (sessions s ! p) = TimerArmed due \<longrightarrow>
          (clock s < due \<longrightarrow> coordinator_step (Timeout p) s = s) \<and>
          (due \<le> clock s \<longrightarrow>
             settled (sessions (coordinator_step (Timeout p) s) ! p)
               = RejectedWith (timeout_text (tab (sessions s ! p))))) \<and>
     (\<forall>p < length (sessions s). \<forall>e.
        settled (sessions s ! p) = Pending \<and> phase (sessions s ! p) = AwaitingInjection \<longrightarrow>
          settled (sessions (coordinator_step (InjectionFailed p e) s) ! p)
            = RejectedWith (injection_error e)) \<and>
     (\<forall>p < length (sessions s). \<forall>ev m.
        settled (sessions s ! p) = Pending \<and>
        settled (sessions (coordinator_step ev s) ! p) = RejectedWith m \<longrightarrow>
          (ev = Timeout p \<and> m = timeout_text (tab (sessions s ! p))) \<or>
          (\<exists>e. ev = InjectionFailed p e \<and> m = injection_error e)) \<and>
     (\<forall>p < length (sessions s). \<forall>due.
        phase (sessions s ! p) = TimerArmed due \<and> due \<le> clock s \<longrightarrow>
          settled (sessions (coordinator_step (Timeout p) s) ! p) \<noteq> Pending)"
proof -
  from assms have inv: "coordinator_inv s"
    by (simp add: inv_run inv_init)
  have c11: "\<forall>p < length (sessions s). \<forall>due.
        phase (sessions s ! p) = TimerArmed due \<and> due \<le> clock s \<longrightarrow>
          settled (sessions (coordinator_step (Timeout p) s) ! p) \<noteq> Pending"
  proof (intro allI impI)
    fix p due assume p: "p < length (sessions s)"
      and a: "phase (sessions s ! p) = TimerArmed due \<and> due \<le> clock s"
    then have ph: "phase (sessions s ! p) = TimerArmed due" and due: "due \<le> clock s" by simp_all
    show "settled (sessions (coordinator_step (Timeout p) s) ! p) \<noteq> Pending"
    proof (cases "settled (sessions s ! p) = Pending")
      case True
      from timeout_fires(3) [OF inv p ph due True] show ?thesis by simp
    next
      case False
      from settled_final [OF p False, of "Timeout p"] False show ?thesis by simp
    qed
  qed
  have c9: "\<forall>p < length (sessions s). \<forall>e.
        settled (sessions s ! p) = Pending \<and> phase (sessions s ! p) = AwaitingInjection \<longrightarrow>
          settled (sessions (coordinator_step (InjectionFailed p e) s) ! p)
            = RejectedWith (injection_error e)"
  proof (intro allI impI)
    fix p e assume p: "p < length (sessions s)"
      and a: "settled (sessions s ! p) = Pending \<and> phase (sessions s ! p) = AwaitingInjection"
    then show "settled (sessions (coordinator_step (InjectionFailed p e) s) ! p)
            = RejectedWith (injection_error e)"
      by (intro injection_failure_rejects) simp_all
  qed
  have c10: "\<forall>p < length (sessions s). \<forall>ev m.
        settled (sessions s ! p) = Pending \<and>
        settled (sessions (coordinator_step ev s) ! p) = RejectedWith m \<longrightarrow>
          (ev = Timeout p \<and> m = timeout_text (tab (sessions s ! p))) \<or>
          (\<exists>e. ev = InjectionFailed p e \<and> m = injection_error e)"
  proof (intro allI impI)
    fix p ev m assume p: "p < length (sessions s)"
      and a: "settled (sessions s ! p) = Pending \<and>
        settled (sessions (coordinator_step ev s) ! p) = RejectedWith m"
    then have pe: "settled (sessions s ! p) = Pending"
      and rj: "settled (sessions (coordinator_step ev s) ! p) = RejectedWith m" by simp_all
    from rejection_causes [OF p pe rj]
    show "(ev = Timeout p \<and> m = timeout_text (tab (sessions s ! p))) \<or>
          (\<exists>e. ev = InjectionFailed p e \<and> m = injection_error e)" .
  qed
  have c1: "\<forall>t p. contentScriptReadyPromises s t = Some p \<longrightarrow> ensureContentScriptLoaded t s = (p, s)"
    by (simp add: ensureContentScriptLoaded_def)
  have c2: "\<forall>p < length (sessions s). settled (sessions s ! p) = Pending \<longrightarrow>
        contentScriptReadyPromises s (tab (sessions s ! p)) = Some p"
  proof (intro allI impI)
    fix p assume p: "p < length (sessions s)" and pe: "settled (sessions s ! p) = Pending"
    from invD_pending [OF inv p pe] have "phase (sessions s ! p) \<noteq> TimerDone" by simp
    from invD_live [OF inv p this]
    show "contentScriptReadyPromises s (tab (sessions s ! p)) = Some p" .
  qed
  have c3: "\<forall>p < length (sessions s). \<forall>q < length (sessions s).
        settled (sessions s ! p) = Pending \<and> settled (sessions s ! q) = Pending \<and>
        tab (sessions s ! p) = tab (sessions s ! q) \<longrightarrow> p = q"
  proof (intro allI impI)
    fix p q assume p: "p < length (sessions s)" and q: "q < length (sessions s)"
      and a: "settled (sessions s ! p) = Pending \<and> settled (sessions s ! q) = Pending \<and>
        tab (sessions s ! p) = tab (sessions s ! q)"
    from a have pp: "settled (sessions s ! p) = Pending" and pq: "settled (sessions s ! q) = Pending"
      and t: "tab (sessions s ! p) = tab (sessions s ! q)" by simp_all
    from c2 [rule_format, OF p pp] have m1: "contentScriptReadyPromises s (tab (sessions s ! p)) = Some p" .
    from c2 [rule_format, OF q pq] have m2: "contentScriptReadyPromises s (tab (sessions s ! q)) = Some q" .
    have "contentScriptReadyPromises s (tab (sessions s ! p)) = Some q"
      unfolding t by (rule m2)
    with m1 show "p = q" by simp
  qed
  have c4: "\<forall>p. injections_of p s \<le> 1"
    using injections_bound [OF inv] by blast
  have c5: "\<forall>p < length (sessions s). phase (sessions s ! p) = AwaitingPing \<longrightarrow>
        injections_of p s = 0 \<and>
        actions (coordinator_step (PingFailed p) s)
          = actions s @ [InjectionStarted p (tab (sessions s ! p))] \<and>
        injections_of p (coordinator_step (PingFailed p) s) = 1"
  proof (intro allI impI conjI)
    fix p assume p: "p < length (sessions s)" and ph: "phase (sessions s ! p) = AwaitingPing"
    from ping_failed_injects [OF inv p ph]
    show "injections_of p s = 0"
      and "actions (coordinator_step (PingFailed p) s)
          = actions s @ [InjectionStarted p (tab (sessions s ! p))]"
      and "injections_of p (coordinator_step (PingFailed p) s) = 1" .
  qed
  have c6: "\<forall>p < length (sessions s). \<forall>ev. settled (sessions s ! p) \<noteq> Pending \<longrightarrow>
        settled (sessions (coordinator_step ev s) ! p) = settled (sessions s ! p)"
  proof (intro allI impI)
    fix p ev assume "p < length (sessions s)" "settled (sessions s ! p) \<noteq> Pending"
    then show "settled (sessions (coordinator_step ev s) ! p) = settled (sessions s ! p)"
      by (rule settled_final)
  qed
  have c7: "\<forall>p < length (sessions s). settled (sessions s ! p) = Pending \<longrightarrow>
        settled (sessions (coordinator_step (ReadyMessage (tab (sessions s ! p))) s) ! p) = Fulfilled"
  proof (intro allI impI)
    fix p assume "p < length (sessions s)" "settled (sessions s ! p) = Pending"
    with inv show "settled (sessions (coordinator_step (ReadyMessage (tab (sessions s ! p))) s) ! p) = Fulfilled"
      by (rule ready_resolves)
  qed
  have c8: "\<forall>p < length (sessions s). \<forall>due.
        settled (sessions s ! p) = Pending \<and> phase (sessions s ! p) = TimerArmed due \<longrightarrow>
          (clock s < due \<longrightarrow> coordinator_step (Timeout p) s = s) \<and>
          (due \<le> clock s \<longrightarrow>
             settled (sessions (coordinator_step (Timeout p) s) ! p)
               = RejectedWith (timeout_text (tab (sessions s ! p))))"
  proof (intro allI impI conjI)
    fix p due assume p: "p < length (sessions s)"
      and a: "settled (sessions s ! p) = Pending \<and> phase (sessions s ! p) = TimerArmed due"
    {
      assume "clock s < due"
      with a show "coordinator_step (Timeout p) s = s" by (intro timeout_early [of s p due]) simp_all
    next
      assume "due \<le> clock s"
      with timeout_fires(3) [OF inv p _ this] a
      show "settled (sessions (coordinator_step (Timeout p) s) ! p)
               = RejectedWith (timeout_text (tab (sessions s ! p)))" by blast
    }
  qed
  show ?thesis by (intro conjI c1 c2 c3 c4 c5 c6 c7 c8 c9 c10 c11)
qed

theorem one_handshake_per_tab_witness:
  "ensureContentScriptLoaded 7 (coordinator_run no_listener_run coordinator_init)
     = (0, coordinator_run no_listener_run coordinator_init) \<and>
   actions (coordinator_run no_listener_run coordinator_init) = [PingSent 0 7, InjectionStarted 0 7] \<and>
   injections_of 0 (coordinator_run no_listener_run coordinator_init) \<le> 1 \<and>
   injections_of 0 (coordinator_step (PingFailed 0) (coordinator_run [Call 7] coordinator_init)) = 1 \<and>
   settled (sessions (coordinator_run no_listener_run coordinator_init) ! 0) = Pending \<and>
   settled (sessions (coordinator_step (ReadyMessage 7)
       (coordinator_run no_listener_run coordinator_init)) ! 0) = Fulfilled \<and>
   coordinator_step (Timeout 0) (coordinator_run no_listener_run coordinator_init)
     = coordinator_run no_listener_run coordinator_init \<and>
   settled (sessions (coordinator_step (Timeout 0)
       (coordinator_run (no_listener_run @ [Advance 15000]) coordinator_init)) ! 0)
     = RejectedWith (timeout_text 7) \<and>
   settled (sessions (coordinator_step (Timeout 0)
       (coordinator_run (no_listener_run @ [ReadyMessage 7, Advance 15000]) coordinator_init)) ! 0)
     = Fulfilled \<and>
   settled (sessions (coordinator_step (InjectionFailed 0 ''denied'')
       (coordinator_run [Call 7, PingFailed 0] coordinator_init)) ! 0)
     = RejectedWith (injection_error ''denied'')"
proof -
  let ?se = "coordinator_run [Call 7, PingFailed 0] coordinator_init"
  note t4 = one_handshake_per_tab [where s = "?se" and evs = "[Call 7, PingFailed 0]", OF refl]
  have e4: "sessions ?se = [\<lparr>tab = 7, settled = Pending, listener_on = True,
                             phase = AwaitingInjection, created_at = 0\<rparr>]"
    by (simp add: coordinator_eval)
  from t4 have inj: "\<forall>p < length (sessions ?se). \<forall>e.
        settled (sessions ?se ! p) = Pending \<and> phase (sessions ?se ! p) = AwaitingInjection \<longrightarrow>
          settled (sessions (coordinator_step (InjectionFailed p e) ?se) ! p)
            = RejectedWith (injection_error e)"
    by (elim conjE) assumption
  have w9: "settled (sessions (coordinator_step (InjectionFailed 0 ''denied'') ?se) ! 0)
     = RejectedWith (injection_error ''denied'')"
    using inj [rule_format, of 0 "''denied''"] by (simp add: e4)
  let ?sa = "coordinator_run [Call 7] coordinator_init"
  let ?sb = "coordinator_run no_listener_run coordinator_init"
  let ?sc = "coordinator_run (no_listener_run @ [Advance 15000]) coordinator_init"
  let ?sd = "coordinator_run (no_listener_run @ [ReadyMessage 7, Advance 15000]) coordinator_init"
  note t0 = one_handshake_per_tab [where s = "?sa" and evs = "[Call 7]", OF refl]
  note t1 = one_handshake_per_tab [where s = "?sb" and evs = "no_listener_run", OF refl]
  note t2 = one_handshake_per_tab [where s = "?sc" and evs = "no_listener_run @ [Advance 15000]", OF refl]
  note t3 = one_handshake_per_tab [where s = "?sd" and evs = "no_listener_run @ [ReadyMessage 7, Advance 15000]", OF refl]
  have e0: "sessions ?sa = [\<lparr>tab = 7, settled = Pending, listener_on = True,
                             phase = AwaitingPing, created_at = 0\<rparr>]"
    by (simp add: coordinator_eval)
  have e1: "sessions ?sb = [\<lparr>tab = 7, settled = Pending, listener_on = True,
                             phase = TimerArmed 15055, created_at = 0\<rparr>]"
    "clock ?sb = 55" "contentScriptReadyPromises ?sb 7 = Some 0"
    "actions ?sb = [PingSent 0 7, InjectionStarted 0 7]"
    by (simp_all add: coordinator_eval no_listener_run_def)
  have e2: "sessions ?sc = [\<lparr>tab = 7, settled = Pending, listener_on = True,
                             phase = TimerArmed 15055, created_at = 0\<rparr>]"
    "clock ?sc = 15055"
    by (simp_all add: coordinator_eval no_listener_run_def)
  have e3: "sessions ?sd = [\<lparr>tab = 7, settled = Fulfilled, listener_on = False,
                             phase = TimerArmed 15055, created_at = 0\<rparr>]"
    by (simp add: coordinator_eval no_listener_run_def)
  from t1 have k1: "\<forall>t p. contentScriptReadyPromises ?sb t = Some p \<longrightarrow>
        ensureContentScriptLoaded t ?sb = (p, ?sb)"
    by (elim conjE) assumption
  from k1 [rule_format, OF e1(3)] have w1: "ensureContentScriptLoaded 7 ?sb = (0, ?sb)" .
  from t1 have k4: "\<forall>p. injections_of p ?sb \<le> 1"
    by (elim conjE) assumption
  from k4 have w2: "injections_of 0 ?sb \<le> 1" by (rule spec)
  from t0 have "\<forall>p < length (sessions ?sa). phase (sessions ?sa ! p) = AwaitingPing \<longrightarrow>
        injections_of p ?sa = 0 \<and>
        actions (coordinator_step (PingFailed p) ?sa)
          = actions ?sa @ [InjectionStarted p (tab (sessions ?sa ! p))] \<and>
        injections_of p (coordinator_step (PingFailed p) ?sa) = 1"
    by (elim conjE) assumption
  from this [rule_format, of 0]
  have w3: "injections_of 0 (coordinator_step (PingFailed 0) ?sa) = 1"
    by (simp add: e0)
  from t1 have "\<forall>p < length (sessions ?sb). settled (sessions ?sb ! p) = Pending \<longrightarrow>
        settled (sessions (coordinator_step (ReadyMessage (tab (sessions ?sb ! p))) ?sb) ! p) = Fulfilled"
    by (elim conjE) assumption
  from this [rule_format, of 0]
  have w4: "settled (sessions (coordinator_step (ReadyMessage 7) ?sb) ! 0) = Fulfilled"
    by (simp add: e1(1))
  from t1 have tm1: "\<forall>p < length (sessions ?sb). \<forall>due.
        settled (sessions ?sb ! p) = Pending \<and> phase (sessions ?sb ! p) = TimerArmed due \<longrightarrow>
          (clock ?sb < due \<longrightarrow> coordinator_step (Timeout p) ?sb = ?sb) \<and>
          (due \<le> clock ?sb \<longrightarrow>
             settled (sessions (coordinator_step (Timeout p) ?sb) ! p)
               = RejectedWith (timeout_text (tab (sessions ?sb ! p))))"
    by (elim conjE) assumption
  have w5: "coordinator_step (Timeout 0) ?sb = ?sb"
    using tm1 [rule_format, of 0 15055] by (simp add: e1(1,2))
  from t2 have tm2: "\<forall>p < length (sessions ?sc). \<forall>due.
        settled (sessions ?sc ! p) = Pending \<and> phase (sessions ?sc ! p) = TimerArmed due \<longrightarrow>
          (clock ?sc < due \<longrightarrow> coordinator_step (Timeout p) ?sc = ?sc) \<and>
          (due \<le> clock ?sc \<longrightarrow>
             settled (sessions (coordinator_step (Timeout p) ?sc) ! p)
               = RejectedWith (timeout_text (tab (sessions ?sc ! p))))"
    by (elim conjE) assumption
  have w6: "settled (sessions (coordinator_step (Timeout 0) ?sc) ! 0) = RejectedWith (timeout_text 7)"
    using tm2 [rule_format, of 0 15055] by (simp add: e2)
  from t3 have fin: "\<forall>p < length (sessions ?sd). \<forall>ev. settled (sessions ?sd ! p) \<noteq> Pending \<longrightarrow>
        settled (sessions (coordinator_step ev ?sd) ! p) = settled (sessions ?sd ! p)"
    by (elim conjE) assumption
  have w7: "settled (sessions (coordinator_step (Timeout 0) ?sd) ! 0) = Fulfilled"
    using fin [rule_format, of 0 "Timeout 0"] by (simp add: e3)
  have w8: "settled (sessions ?sb ! 0) = Pending" by (simp add: e1(1))
  from w1 e1(4) w2 w3 w8 w4 w5 w6 w7 w9 show ?thesis by (intro conjI)
qed

text \<open>
  Claim C10, as stated, fails in its last part: the timer is set when the ping (and the
  injection, if any) has finished, not when the entry is created. With a ping answered
  after 100 ms, the entry of the resolved promise is still in the map 15050 ms after its
  creation, and the timer cannot fire yet.
\<close>

theorem resolved_entry_outlives_fifteen_seconds:
  "settled (sessions (coordinator_run [Call 7, Advance 100, PingAnswered 0, Advance 14950, Timeout 0]
                        coordinator_init) ! 0) = Fulfilled \<and>
   created_at (sessions (coordinator_run [Call 7, Advance 100, PingAnswered 0, Advance 14950, Timeout 0]
                           coordinator_init) ! 0) = 0 \<and>
   clock (coordinator_run [Call 7, Advance 100, PingAnswered 0, Advance 14950, Timeout 0]
            coordinator_init) = 15050 \<and>
   contentScriptReadyPromises
     (coordinator_run [Call 7, Advance 100, PingAnswered 0, Advance 14950, Timeout 0] coordinator_init) 7
     = Some 0"
  by (simp add: coordinator_eval)

text \<open>
  Claim C10, amended. In every reachable state: when the timer of a promise fires, the
  promise is the one stored for its tab and the handler deletes that entry, whatever the
  state of the promise, resolved or not; an answered ping and a ready announcement leave
  the map as it is; the entry of a promise is in the map exactly as long as its timer has
  not fired; the timer is set for 15000 ms after the moment the ping is answered or the
  injection returns, which is 15000 ms or more after the creation; and before that time
  the timer does nothing.
\<close>

theorem entry_lives_until_the_timer_fires:
  assumes "s = coordinator_run evs coordinator_init"
  shows
    "(\<forall>p < length (sessions s). \<forall>due. phase (sessions s ! p) = TimerArmed due \<and> due \<le> clock s \<longrightarrow>
        contentScriptReadyPromises s (tab (sessions s ! p)) = Some p \<and>
        contentScriptReadyPromises (coordinator_step (Timeout p) s) (tab (sessions s ! p)) = None) \<and>
     (\<forall>p t. contentScriptReadyPromises (coordinator_step (PingAnswered p) s) = contentScriptReadyPromises s \<and>
            contentScriptReadyPromises (coordinator_step (ReadyMessage t) s) = contentScriptReadyPromises s) \<and>
     (\<forall>p < length (sessions s).
        (phase (sessions s ! p) \<noteq> TimerDone \<longrightarrow>
           contentScriptReadyPromises s (tab (sessions s ! p)) = Some p) \<and>
        (phase (sessions s ! p) = TimerDone \<longrightarrow>
           contentScriptReadyPromises s (tab (sessions s ! p)) \<noteq> Some p)) \<and>
     (\<forall>p < length (sessions s).
        (phase (sessions s ! p) = AwaitingPing \<longrightarrow>
           phase (sessions (coordinator_step (PingAnswered p) s) ! p) = TimerArmed (clock s + 15000)) \<and>
        (phase (sessions s ! p) = AwaitingInjection \<longrightarrow>
           phase (sessions (coordinator_step (InjectionDone p) s) ! p) = TimerArmed (clock s + 15000))) \<and>
     (\<forall>p < length (sessions s). \<forall>due. phase (sessions s ! p) = TimerArmed due \<longrightarrow>
        created_at (sessions s ! p) + 15000 \<le> due \<and>
        (clock s < due \<longrightarrow> coordinator_step (Timeout p) s = s))"
proof -
  from assms have inv: "coordinator_inv s"
    by (simp add: inv_run inv_init)
  have c1: "\<forall>p < length (sessions s). \<forall>due. phase (sessions s ! p) = TimerArmed due \<and> due \<le> clock s \<longrightarrow>
        contentScriptReadyPromises s (tab (sessions s ! p)) = Some p \<and>
        contentScriptReadyPromises (coordinator_step (Timeout p) s) (tab (sessions s ! p)) = None"
  proof (intro allI impI)
    fix p due assume p: "p < length (sessions s)"
      and a: "phase (sessions s ! p) = TimerArmed due \<and> due \<le> clock s"
    then have ph: "phase (sessions s ! p) = TimerArmed due" and due: "due \<le> clock s" by simp_all
    from timeout_fires(1,2) [OF inv p ph due]
    show "contentScriptReadyPromises s (tab (sessions s ! p)) = Some p \<and>
        contentScriptReadyPromises (coordinator_step (Timeout p) s) (tab (sessions s ! p)) = None"
      by simp
  qed
  have c2: "\<forall>p t. contentScriptReadyPromises (coordinator_step (PingAnswered p) s) = contentScriptReadyPromises s \<and>
            contentScriptReadyPromises (coordinator_step (ReadyMessage t) s) = contentScriptReadyPromises s"
    by (simp add: ping_answered_def ready_message_def update_session_def)
  have c3: "\<forall>p < length (sessions s).
        (phase (sessions s ! p) \<noteq> TimerDone \<longrightarrow>
           contentScriptReadyPromises s (tab (sessions s ! p)) = Some p) \<and>
        (phase (sessions s ! p) = TimerDone \<longrightarrow>
           contentScriptReadyPromises s (tab (sessions s ! p)) \<noteq> Some p)"
  proof (intro allI impI conjI)
    fix p assume p: "p < length (sessions s)"
    {
      assume "phase (sessions s ! p) \<noteq> TimerDone"
      with inv p show "contentScriptReadyPromises s (tab (sessions s ! p)) = Some p"
        by (rule invD_live)
    next
      assume d: "phase (sessions s ! p) = TimerDone"
      show "contentScriptReadyPromises s (tab (sessions s ! p)) \<noteq> Some p"
      proof
        assume "contentScriptReadyPromises s (tab (sessions s ! p)) = Some p"
        from invD_map [OF inv this] d show False by simp
      qed
    }
  qed
  have c4: "\<forall>p < length (sessions s).
        (phase (sessions s ! p) = AwaitingPing \<longrightarrow>
           phase (sessions (coordinator_step (PingAnswered p) s) ! p) = TimerArmed (clock s + 15000)) \<and>
        (phase (sessions s ! p) = AwaitingInjection \<longrightarrow>
           phase (sessions (coordinator_step (InjectionDone p) s) ! p) = TimerArmed (clock s + 15000))"
    by (simp add: ping_answered_def injection_done_def update_session_def)
  have c5: "\<forall>p < length (sessions s). \<forall>due. phase (sessions s ! p) = TimerArmed due \<longrightarrow>
        created_at (sessions s ! p) + 15000 \<le> due \<and>
        (clock s < due \<longrightarrow> coordinator_step (Timeout p) s = s)"
  proof (intro allI impI conjI)
    fix p due assume p: "p < length (sessions s)" and ph: "phase (sessions s ! p) = TimerArmed due"
    from invD_time [OF inv p] ph show "created_at (sessions s ! p) + 15000 \<le> due" by simp
    assume "clock s < due"
    with ph show "coordinator_step (Timeout p) s = s" by (intro timeout_early [of s p due])
  qed
  show ?thesis by (intro conjI c1 c2 c3 c4 c5)
qed

theorem entry_lives_until_the_timer_fires_witness:
  "settled (sessions (coordinator_run answered_run coordinator_init) ! 0) = Fulfilled \<and>
   phase (sessions (coordinator_run answered_run coordinator_init) ! 0) = TimerArmed 15100 \<and>
   clock (coordinator_run answered_run coordinator_init) = 15100 \<and>
   contentScriptReadyPromises (coordinator_run answered_run coordinator_init) 7 = Some 0 \<and>
   contentScriptReadyPromises
     (coordinator_step (Timeout 0) (coordinator_run answered_run coordinator_init)) 7 = None \<and>
   phase (sessions (coordinator_step (PingAnswered 0)
       (coordinator_run [Call 7, Advance 100] coordinator_init)) ! 0) = TimerArmed 15100"
proof -
  let ?sb = "coordinator_run answered_run coordinator_init"
  let ?sa = "coordinator_run [Call 7, Advance 100] coordinator_init"
  note t = entry_lives_until_the_timer_fires [where s = "?sb" and evs = "answered_run", OF refl]
  note t0 = entry_lives_until_the_timer_fires [where s = "?sa" and evs = "[Call 7, Advance 100]", OF refl]
  have e: "sessions ?sb = [\<lparr>tab = 7, settled = Fulfilled, listener_on = False,
                           phase = TimerArmed 15100, created_at = 0\<rparr>]"
    "clock ?sb = 15100"
    by (simp_all add: coordinator_eval answered_run_def)
  have e0: "sessions ?sa = [\<lparr>tab = 7, settled = Pending, listener_on = True,
                           phase = AwaitingPing, created_at = 0\<rparr>]"
    "clock ?sa = 100"
    by (simp_all add: coordinator_eval)
  from t have c1: "\<forall>p < length (sessions ?sb). \<forall>due.
        phase (sessions ?sb ! p) = TimerArmed due \<and> due \<le> clock ?sb \<longrightarrow>
        contentScriptReadyPromises ?sb (tab (sessions ?sb ! p)) = Some p \<and>
        contentScriptReadyPromises (coordinator_step (Timeout p) ?sb) (tab (sessions ?sb ! p)) = None"
    by (elim conjE) assumption
  have w1: "contentScriptReadyPromises ?sb 7 = Some 0 \<and>
        contentScriptReadyPromises (coordinator_step (Timeout 0) ?sb) 7 = None"
    using c1 [rule_format, of 0 15100] by (simp add: e)
  from t0 have c4: "\<forall>p < length (sessions ?sa).
        (phase (sessions ?sa ! p) = AwaitingPing \<longrightarrow>
           phase (sessions (coordinator_step (PingAnswered p) ?sa) ! p) = TimerArmed (clock ?sa + 15000)) \<and>
        (phase (sessions ?sa ! p) = AwaitingInjection \<longrightarrow>
           phase (sessions (coordinator_step (InjectionDone p) ?sa) ! p) = TimerArmed (clock ?sa + 15000))"
    by (elim conjE) assumption
  have w2: "phase (sessions (coordinator_step (PingAnswered 0) ?sa) ! 0) = TimerArmed 15100"
    using c4 [rule_format, of 0] by (simp add: e0)
  from w1 w2 e show ?thesis by simp
qed


end
